theory Spec2Isabelle
  imports Complex_Main "HOL-Library.Sublist" "HOL-Library.AList"
begin

section \<open>Data model: tables as pandas holds them\<close>

text \<open>
  A GeoDataFrame is column oriented: a row index (the labels) and, for every column
  name, a series with a dtype (of which the code reads the \<open>kind\<close> letter) and one
  cell per row. Floating-point values are idealised as rationals; a missing value
  (\<open>None\<close> or \<open>NaN\<close>) is \<open>Null\<close>. Row labels are natural numbers and are assumed
  pairwise distinct, as \<open>from_features\<close> builds them and as every filter keeps them.
\<close>

datatype geometry = Geometry (is_valid: bool)

datatype cell = Null | Num rat | Str string | Geo geometry

record series =
  kind :: char
  cells :: "cell list"

record gdf =
  index :: "nat list"
  data :: "(string \<times> series) list"

datatype error =
    KeyError "string list"
  | TypeError string
  | AttributeError
  | IndexingError
  | HTTPError nat
  | RuntimeError string
  | JSONDecodeError
  | RequestException

text \<open>The Python class of each exception.\<close>

fun exception_class :: "error \<Rightarrow> string" where
  "exception_class (KeyError cs) = ''KeyError''"
| "exception_class (TypeError c) = ''TypeError''"
| "exception_class AttributeError = ''AttributeError''"
| "exception_class IndexingError = ''pandas.errors.IndexingError''"
| "exception_class (HTTPError status) = ''requests.exceptions.HTTPError''"
| "exception_class (RuntimeError e) = ''RuntimeError''"
| "exception_class JSONDecodeError = ''requests.exceptions.JSONDecodeError''"
| "exception_class RequestException = ''requests.exceptions.RequestException''"

definition len :: "gdf \<Rightarrow> nat" where
  "len g = length (index g)"

definition columns :: "gdf \<Rightarrow> string list" where
  "columns g = map fst (data g)"

text \<open>\<open>gdf[col]\<close>: the series of a column, \<open>KeyError\<close> when there is none.\<close>

definition getitem :: "gdf \<Rightarrow> string \<Rightarrow> error + series" where
  "getitem g col =
     (case map_of (data g) col of None \<Rightarrow> Inl (KeyError [col]) | Some s \<Rightarrow> Inr s)"

text \<open>Selecting by a boolean array, position by position.\<close>

definition select :: "bool list \<Rightarrow> 'a list \<Rightarrow> 'a list" where
  "select m xs = map snd (filter fst (zip m xs))"

definition take_rows :: "gdf \<Rightarrow> bool list \<Rightarrow> gdf" where
  "take_rows g m =
     \<lparr>index = select m (index g),
      data = map (\<lambda>(c, s). (c, s\<lparr>cells := select m (cells s)\<rparr>)) (data g)\<rparr>"

definition reset_index :: "gdf \<Rightarrow> gdf" where
  "reset_index g = g\<lparr>index := [0..<length (index g)]\<rparr>"

definition notna :: "cell \<Rightarrow> bool" where
  "notna c = (c \<noteq> Null)"

section \<open>The IQR outlier filter\<close>

text \<open>
  \<open>Series.quantile(q)\<close>: missing values are skipped, the rest is sorted and the
  quantile is interpolated linearly between the two neighbours of position
  \<open>q * (n - 1)\<close>. An empty or all-missing series gives \<open>NaN\<close>, here \<open>None\<close>. The
  filter asks for the quantiles \<open>0.25\<close> and \<open>0.75\<close> only.
\<close>

fun nums :: "cell list \<Rightarrow> rat list" where
  "nums [] = []"
| "nums (Num v # cs) = v # nums cs"
| "nums (c # cs) = nums cs"

definition quantile :: "series \<Rightarrow> rat \<Rightarrow> rat option" where
  "quantile s q =
     (let xs = sort (nums (cells s)); n = length xs in
      if n = 0 then None
      else let h = q * of_nat (n - 1);
               lo = nat \<lfloor>h\<rfloor>;
               hi = min (lo + 1) (n - 1)
           in Some (xs ! lo + (xs ! hi - xs ! lo) * (h - of_int \<lfloor>h\<rfloor>)))"

text \<open>Float arithmetic with \<open>NaN\<close> as \<open>None\<close>: an operation on \<open>NaN\<close> is \<open>NaN\<close>.\<close>

definition fsub :: "rat option \<Rightarrow> rat option \<Rightarrow> rat option" where
  "fsub a b = (case (a, b) of (Some x, Some y) \<Rightarrow> Some (x - y) | _ \<Rightarrow> None)"

definition fadd :: "rat option \<Rightarrow> rat option \<Rightarrow> rat option" where
  "fadd a b = (case (a, b) of (Some x, Some y) \<Rightarrow> Some (x + y) | _ \<Rightarrow> None)"

definition fmul :: "rat \<Rightarrow> rat option \<Rightarrow> rat option" where
  "fmul k a = (case a of Some x \<Rightarrow> Some (k * x) | None \<Rightarrow> None)"

definition iqr_of :: "series \<Rightarrow> rat option" where
  "iqr_of s = fsub (quantile s (3 / 4)) (quantile s (1 / 4))"

definition lower_limit :: "series \<Rightarrow> rat \<Rightarrow> rat option" where
  "lower_limit s k = fsub (quantile s (1 / 4)) (fmul k (iqr_of s))"

definition upper_limit :: "series \<Rightarrow> rat \<Rightarrow> rat option" where
  "upper_limit s k = fadd (quantile s (3 / 4)) (fmul k (iqr_of s))"

text \<open>
  \<open>series >= limit\<close> and \<open>series <= limit\<close> on a float64 column: a comparison
  that involves \<open>NaN\<close> is \<open>False\<close>, so the result is a plain boolean series with no
  missing entry.
\<close>

definition ge_limit :: "cell \<Rightarrow> rat option \<Rightarrow> bool" where
  "ge_limit c l = (case (c, l) of (Num v, Some b) \<Rightarrow> b \<le> v | _ \<Rightarrow> False)"

definition le_limit :: "cell \<Rightarrow> rat option \<Rightarrow> bool" where
  "le_limit c l = (case (c, l) of (Num v, Some b) \<Rightarrow> v \<le> b | _ \<Rightarrow> False)"

definition col_inlier :: "series \<Rightarrow> rat \<Rightarrow> bool option list" where
  "col_inlier s k =
     map (\<lambda>c. Some (ge_limit c (lower_limit s k) \<and> le_limit c (upper_limit s k))) (cells s)"

definition fillna :: "bool \<Rightarrow> bool option list \<Rightarrow> bool list" where
  "fillna b xs = map (\<lambda>x. case x of None \<Rightarrow> b | Some y \<Rightarrow> y) xs"

definition col_mask :: "series \<Rightarrow> rat \<Rightarrow> bool \<Rightarrow> bool list" where
  "col_mask s k treat_na_as_outlier =
     (if treat_na_as_outlier then fillna False (col_inlier s k)
      else fillna True (col_inlier s k))"

text \<open>
  \<open>keep_mask\<close> starts as a NumPy array (\<open>index == index\<close>) and becomes a labelled
  boolean series at the first \<open>&\<close>. \<open>&\<close> of an array and a series is positional and
  takes the labels of the series. \<open>&\<close> of two series with the same index is
  positional; with different indexes pandas aligns them on the union of the labels
  and a label missing on one side counts as \<open>False\<close>.
\<close>

datatype mask = NdArray "bool list" | BoolSeries "(nat \<times> bool) list"

definition at_label :: "(nat \<times> bool) list \<Rightarrow> nat \<Rightarrow> bool" where
  "at_label m l = (case map_of m l of None \<Rightarrow> False | Some b \<Rightarrow> b)"

fun mask_and :: "mask \<Rightarrow> (nat \<times> bool) list \<Rightarrow> (nat \<times> bool) list" where
  "mask_and (NdArray bs) cm = map (\<lambda>(b, (l, c)). (l, b \<and> c)) (zip bs cm)"
| "mask_and (BoolSeries km) cm =
     (if map fst km = map fst cm
      then map (\<lambda>((l, a), (_, c)). (l, a \<and> c)) (zip km cm)
      else map (\<lambda>l. (l, at_label km l \<and> at_label cm l))
               (sort (remdups (map fst km @ map fst cm))))"

text \<open>
  \<open>gdf[keep_mask]\<close> with a boolean series: positional when the series has the
  frame's index; otherwise the series is reindexed to the frame's labels, and
  \<open>IndexingError\<close> is raised when a label of the frame is missing from it.
\<close>

definition getitem_bool :: "gdf \<Rightarrow> (nat \<times> bool) list \<Rightarrow> error + gdf" where
  "getitem_bool g km =
     (if map fst km = index g then Inr (take_rows g (map snd km))
      else if \<exists>l \<in> set (index g). l \<notin> set (map fst km) then Inl IndexingError
      else Inr (take_rows g (map (at_label km) (index g))))"

definition numeric_kind :: "char \<Rightarrow> bool" where
  "numeric_kind c = (c = CHR ''i'' \<or> c = CHR ''u'' \<or> c = CHR ''f'')"

fun iqr_loop :: "rat \<Rightarrow> bool \<Rightarrow> gdf \<Rightarrow> mask \<Rightarrow> string list \<Rightarrow> error + gdf" where
  "iqr_loop k na gdf_filtered keep_mask [] = Inr gdf_filtered"
| "iqr_loop k na gdf_filtered keep_mask (col # cols) =
     (case map_of (data gdf_filtered) col of
        None \<Rightarrow> Inl (KeyError [col])
      | Some s \<Rightarrow>
          if \<not> numeric_kind (kind s) then Inl (TypeError col)
          else let keep_mask' = mask_and keep_mask (zip (index gdf_filtered) (col_mask s k na))
               in (case getitem_bool gdf_filtered keep_mask' of
                     Inl e \<Rightarrow> Inl e
                   | Inr g' \<Rightarrow> iqr_loop k na (reset_index g') (BoolSeries keep_mask') cols))"

definition remove_outliers_iqr :: "gdf \<Rightarrow> string list \<Rightarrow> rat \<Rightarrow> bool \<Rightarrow> error + gdf" where
  "remove_outliers_iqr g cols k treat_na_as_outlier =
     iqr_loop k treat_na_as_outlier g (NdArray (map (\<lambda>_. True) (index g))) cols"

section \<open>The validation cascade\<close>

text \<open>\<open>gdf.geometry\<close>: the active geometry column; \<open>AttributeError\<close> when it is gone.\<close>

definition geometry_col :: "gdf \<Rightarrow> error + series" where
  "geometry_col g =
     (case map_of (data g) ''geometry'' of None \<Rightarrow> Inl AttributeError | Some s \<Rightarrow> Inr s)"

definition valid_cell :: "cell \<Rightarrow> bool" where
  "valid_cell c = (case c of Geo geo \<Rightarrow> is_valid geo | _ \<Rightarrow> False)"

text \<open>Step 1: rows with a geometry, then rows whose geometry is valid.\<close>

definition step_geometry :: "gdf \<Rightarrow> error + gdf" where
  "step_geometry g =
     (case geometry_col g of
        Inl e \<Rightarrow> Inl e
      | Inr s \<Rightarrow>
          let g1 = take_rows g (map notna (cells s)) in
          (case geometry_col g1 of
             Inl e \<Rightarrow> Inl e
           | Inr s1 \<Rightarrow> Inr (take_rows g1 (map valid_cell (cells s1)))))"

text \<open>
  The literal \<open>Versao Valida\<close> (written with a tilde and an acute accent), as its
  UTF-8 bytes.
\<close>

definition versao_valida :: string where
  "versao_valida =
     ''Vers'' @ [CHR 0xC3, CHR 0xA3] @ ''o V'' @ [CHR 0xC3, CHR 0xA1] @ ''lida''"

text \<open>Step 2.1: only rows of the valid version.\<close>

definition step_version :: "gdf \<Rightarrow> error + gdf" where
  "step_version g =
     (case getitem g ''versao'' of
        Inl e \<Rightarrow> Inl e
      | Inr s \<Rightarrow> Inr (take_rows g (map (\<lambda>c. c = Str versao_valida) (cells s))))"

text \<open>
  \<open>series.replace([1, "1"], "Sim")\<close>: a cell equal to the number one or to the text
  \<open>"1"\<close> becomes \<open>"Sim"\<close>; a series in which a cell was replaced by text has dtype
  object afterwards.
\<close>

definition replace_cell :: "cell \<Rightarrow> cell" where
  "replace_cell c = (if c = Num 1 \<or> c = Str ''1'' then Str ''Sim'' else c)"

definition replace_one :: "series \<Rightarrow> series" where
  "replace_one s =
     \<lparr>kind = (if Num 1 \<in> set (cells s) \<or> Str ''1'' \<in> set (cells s) then CHR ''O'' else kind s),
      cells = map replace_cell (cells s)\<rparr>"

text \<open>\<open>gdf[col] = series\<close>: the column is replaced where it stands, or appended.\<close>

definition setitem :: "gdf \<Rightarrow> string \<Rightarrow> series \<Rightarrow> gdf" where
  "setitem g col s = g\<lparr>data := AList.update col s (data g)\<rparr>"

text \<open>
  \<open>gdf.dropna(subset=cols)\<close>: \<open>KeyError\<close> with the absent names when a column is
  absent; otherwise the rows with no missing value in any of the columns.
\<close>

fun all_notna :: "series list \<Rightarrow> nat \<Rightarrow> bool list" where
  "all_notna [] n = replicate n True"
| "all_notna (s # ss) n = map (\<lambda>(a, b). a \<and> b) (zip (map notna (cells s)) (all_notna ss n))"

definition absent :: "gdf \<Rightarrow> string list \<Rightarrow> string list" where
  "absent g cols = filter (\<lambda>c. map_of (data g) c = None) cols"

definition dropna :: "gdf \<Rightarrow> string list \<Rightarrow> error + gdf" where
  "dropna g cols =
     (if absent g cols \<noteq> [] then Inl (KeyError (absent g cols))
      else Inr (take_rows g (all_notna (List.map_filter (map_of (data g)) cols) (len g))))"

text \<open>
  Step 2.2: normalise the operation status, count the rows left without one (the
  count is only printed) and drop them.
\<close>

definition missing_operation_info :: "series \<Rightarrow> nat" where
  "missing_operation_info s = length (filter (\<lambda>c. c = Null) (cells s))"

definition step_operation :: "gdf \<Rightarrow> error + gdf" where
  "step_operation g =
     (case getitem g ''operacao'' of
        Inl e \<Rightarrow> Inl e
      | Inr s \<Rightarrow> dropna (setitem g ''operacao'' (replace_one s)) [''operacao''])"

definition drop_na_columns :: "string list" where
  "drop_na_columns =
     [''pot_mw'', ''alt_total'', ''alt_torre'', ''diam_rotor'', ''eol_versao_id'',
      ''nome_eol'', ''den_aeg'']"

text \<open>Step 2.3: rows with every mandatory attribute.\<close>

definition step_completeness :: "gdf \<Rightarrow> error + gdf" where
  "step_completeness g = dropna g drop_na_columns"

text \<open>Step 3: outliers of the power rating, with the wide factor.\<close>

definition check_outliers :: "string list" where
  "check_outliers = [''pot_mw'']"

definition step_outliers :: "gdf \<Rightarrow> error + gdf" where
  "step_outliers g = remove_outliers_iqr g check_outliers 3 True"

text \<open>
  \<open>gdf.drop_duplicates(subset=cols)\<close>: a row is kept when no earlier row has the same
  values in the columns (two missing values count as the same value).
\<close>

fun row_keys :: "series list \<Rightarrow> nat \<Rightarrow> cell list list" where
  "row_keys [] n = replicate n []"
| "row_keys (s # ss) n = map (\<lambda>(c, r). c # r) (zip (cells s) (row_keys ss n))"

fun first_seen :: "'a list \<Rightarrow> 'a list \<Rightarrow> bool list" where
  "first_seen seen [] = []"
| "first_seen seen (k # ks) = (k \<notin> set seen) # first_seen (k # seen) ks"

definition subset_keys :: "gdf \<Rightarrow> string list \<Rightarrow> cell list list" where
  "subset_keys g cols = row_keys (List.map_filter (map_of (data g)) cols) (len g)"

definition drop_duplicates :: "gdf \<Rightarrow> string list \<Rightarrow> error + gdf" where
  "drop_duplicates g cols =
     (if absent g cols \<noteq> [] then Inl (KeyError (absent g cols))
      else Inr (take_rows g (first_seen [] (subset_keys g cols))))"

text \<open>Step 4: one row per coordinate pair, then a fresh dense index.\<close>

definition step_duplicates :: "gdf \<Rightarrow> error + gdf" where
  "step_duplicates g =
     (case drop_duplicates g [''latitude'', ''longitude''] of
        Inl e \<Rightarrow> Inl e
      | Inr g' \<Rightarrow> Inr (reset_index g'))"

text \<open>\<open>gdf.drop(columns=cols)\<close>: \<open>KeyError\<close> when one of them is absent.\<close>

definition drop_cols :: "gdf \<Rightarrow> string list \<Rightarrow> error + gdf" where
  "drop_cols g cols =
     (if absent g cols \<noteq> [] then Inl (KeyError (absent g cols))
      else Inr (g\<lparr>data := filter (\<lambda>(c, s). c \<notin> set cols) (data g)\<rparr>))"

definition drop_columns :: "string list" where
  "drop_columns = [''geometry'', ''origem'', ''x'', ''y'', ''datum_emp'', ''fuso_ag'', ''versao'']"

text \<open>Step 5: the columns of no use downstream.\<close>

definition step_prune :: "gdf \<Rightarrow> error + gdf" where
  "step_prune g = drop_cols g drop_columns"

text \<open>Running the steps in order; the first exception ends the run.\<close>

fun run_steps :: "(gdf \<Rightarrow> error + gdf) list \<Rightarrow> gdf \<Rightarrow> error + gdf" where
  "run_steps [] g = Inr g"
| "run_steps (f # fs) g = (case f g of Inl e \<Rightarrow> Inl e | Inr g' \<Rightarrow> run_steps fs g')"

definition cascade :: "(gdf \<Rightarrow> error + gdf) list" where
  "cascade =
     [step_geometry, step_version, step_operation, step_completeness, step_outliers,
      step_duplicates, step_prune]"

definition validate_gdf :: "gdf \<Rightarrow> error + gdf" where
  "validate_gdf g = run_steps cascade g"

section \<open>Pagination\<close>

text \<open>
  The query parameters are a dictionary from names to texts or integers. The decoded
  JSON payload is read at three keys only: \<open>error\<close>, \<open>features\<close> and
  \<open>exceededTransferLimit\<close>, each of which may be absent.
\<close>

datatype param = S string | I nat

type_synonym params = "(string \<times> param) list"

record 'f payload =
  error_obj :: "string option"
  features :: "'f list option"
  exceededTransferLimit :: "bool option"

text \<open>
  What \<open>session.get\<close> gives: a transport failure (timeout, no connection), or a
  response with a status code and a body that decodes as JSON or does not.
\<close>

datatype 'f reply = TransportFailure | Response nat "'f payload option"

text \<open>
  The remote side: the reply to the \<open>n\<close>-th request (counted from 0) with the given
  parameters. A stateless server ignores \<open>n\<close>; a scripted sequence of pages ignores
  the parameters.
\<close>

type_synonym 'f session = "nat \<Rightarrow> params \<Rightarrow> 'f reply"

definition default_params :: "nat \<Rightarrow> nat \<Rightarrow> params" where
  "default_params offset limit =
     [(''where'', S ''1=1''), (''outFields'', S ''*''), (''returnGeometry'', S ''true''),
      (''outSR'', S ''4326''), (''f'', S ''geojson''), (''resultOffset'', I offset),
      (''resultRecordCount'', I limit)]"

definition dict_update :: "params \<Rightarrow> params \<Rightarrow> params" where
  "dict_update ps extra = foldl (\<lambda>d (k, v). AList.update k v d) ps extra"

text \<open>\<open>resp.raise_for_status()\<close> raises for the 4xx and 5xx codes.\<close>

definition raises_for_status :: "nat \<Rightarrow> bool" where
  "raises_for_status status = (400 \<le> status \<and> status < 600)"

text \<open>The parameters of one request: the canonical ones, overridden by the caller's.\<close>

definition request_params :: "nat \<Rightarrow> params \<Rightarrow> nat \<Rightarrow> params" where
  "request_params offset extra_params limit =
     (let params = default_params offset limit
      in if extra_params \<noteq> [] then dict_update params extra_params else params)"

definition fetch_page ::
  "'f session \<Rightarrow> nat \<Rightarrow> nat \<Rightarrow> params \<Rightarrow> nat \<Rightarrow> error + 'f payload" where
  "fetch_page session n offset extra_params limit =
     (case session n (request_params offset extra_params limit) of
        TransportFailure \<Rightarrow> Inl RequestException
      | Response status body \<Rightarrow>
          if raises_for_status status then Inl (HTTPError status)
          else (case body of
                  None \<Rightarrow> Inl JSONDecodeError
                | Some d \<Rightarrow>
                    (case error_obj d of
                       Some e \<Rightarrow> Inl (RuntimeError e)
                     | None \<Rightarrow> Inr d)))"

definition limit :: nat where
  "limit = 1000"

definition page_features :: "'f payload \<Rightarrow> 'f list" where
  "page_features d = (case features d of None \<Rightarrow> [] | Some fs \<Rightarrow> fs)"

definition exceeded :: "'f payload \<Rightarrow> bool" where
  "exceeded d = (case exceededTransferLimit d of None \<Rightarrow> False | Some b \<Rightarrow> b)"

text \<open>
  The \<open>while True\<close> loop. Its state is the number of requests issued so far, the
  offset and the features accumulated. It returns the outcome together with the
  number of requests issued; a run that never ends has no value (\<open>None\<close>).
\<close>

partial_function (option) fetch_loop ::
  "'f session \<Rightarrow> params \<Rightarrow> nat \<Rightarrow> nat \<Rightarrow> 'f list \<Rightarrow> ((error + 'f list) \<times> nat) option" where
  "fetch_loop session extra_params n offset acc =
     (case fetch_page session n offset extra_params limit of
        Inl e \<Rightarrow> Some (Inl e, Suc n)
      | Inr d \<Rightarrow>
          if \<not> exceeded d \<or> length (page_features d) < limit
          then Some (Inr (acc @ page_features d), Suc n)
          else fetch_loop session extra_params (Suc n) (offset + limit) (acc @ page_features d))"

definition fetch_all_features ::
  "'f session \<Rightarrow> params \<Rightarrow> ((error + 'f list) \<times> nat) option" where
  "fetch_all_features session extra_params = fetch_loop session extra_params 0 0 []"

section \<open>The outlier filter on a store of tables\<close>

text \<open>
  To tell a table that is changed in place from a new table, the tables live in a
  store and are named by their address (the position in the store). Every pandas
  operation of \<open>remove_outliers_iqr\<close> (\<open>copy\<close>, selection by a mask,
  \<open>reset_index(drop=True)\<close>) builds a new table: it allocates and writes nowhere else.
\<close>

type_synonym store = "gdf list"

definition alloc :: "store \<Rightarrow> gdf \<Rightarrow> store \<times> nat" where
  "alloc h g = (h @ [g], length h)"

fun iqr_loop_store ::
  "rat \<Rightarrow> bool \<Rightarrow> store \<Rightarrow> nat \<Rightarrow> mask \<Rightarrow> string list \<Rightarrow> store \<times> (error + nat)" where
  "iqr_loop_store k na h gdf_filtered keep_mask [] = (h, Inr gdf_filtered)"
| "iqr_loop_store k na h gdf_filtered keep_mask (col # cols) =
     (case map_of (data (h ! gdf_filtered)) col of
        None \<Rightarrow> (h, Inl (KeyError [col]))
      | Some s \<Rightarrow>
          if \<not> numeric_kind (kind s) then (h, Inl (TypeError col))
          else let keep_mask' =
                     mask_and keep_mask (zip (index (h ! gdf_filtered)) (col_mask s k na))
               in (case getitem_bool (h ! gdf_filtered) keep_mask' of
                     Inl e \<Rightarrow> (h, Inl e)
                   | Inr g' \<Rightarrow>
                       let (h1, selected) = alloc h g';
                           (h2, renumbered) = alloc h1 (reset_index (h1 ! selected))
                       in iqr_loop_store k na h2 renumbered (BoolSeries keep_mask') cols))"

definition remove_outliers_iqr_store ::
  "store \<Rightarrow> nat \<Rightarrow> string list \<Rightarrow> rat \<Rightarrow> bool \<Rightarrow> store \<times> (error + nat)" where
  "remove_outliers_iqr_store h gdf cols k treat_na_as_outlier =
     (let (h1, gdf_filtered) = alloc h (h ! gdf)
      in iqr_loop_store k treat_na_as_outlier h1 gdf_filtered
           (NdArray (map (\<lambda>_. True) (index (h1 ! gdf_filtered)))) cols)"

section \<open>The outlier filter as the specification words it\<close>

text \<open>
  A value is an outlier when it lies outside the limits; a missing value counts as an
  outlier when it is configured to, and is exempted otherwise. The columns are taken in
  the given order; each column computes its limits on the table as the preceding columns
  left it, and removes exactly the rows that it flags itself.
\<close>

definition spec_keep :: "series \<Rightarrow> rat \<Rightarrow> bool \<Rightarrow> bool list" where
  "spec_keep s k treat_na_as_outlier =
     map (\<lambda>c. case c of
                 Null \<Rightarrow> \<not> treat_na_as_outlier
               | _ \<Rightarrow> ge_limit c (lower_limit s k) \<and> le_limit c (upper_limit s k))
         (cells s)"

fun iqr_sequential :: "rat \<Rightarrow> bool \<Rightarrow> gdf \<Rightarrow> string list \<Rightarrow> error + gdf" where
  "iqr_sequential k na g [] = Inr g"
| "iqr_sequential k na g (col # cols) =
     (case map_of (data g) col of
        None \<Rightarrow> Inl (KeyError [col])
      | Some s \<Rightarrow>
          if \<not> numeric_kind (kind s) then Inl (TypeError col)
          else iqr_sequential k na (reset_index (take_rows g (spec_keep s k na))) cols)"

section \<open>Example tables\<close>

definition float_series :: "rat list \<Rightarrow> series" where
  "float_series vs = \<lparr>kind = CHR ''f'', cells = map Num vs\<rparr>"

definition boundary_series :: series where
  "boundary_series = float_series [1, 2, 3, 4, 5, 100]"

definition boundary_table :: gdf where
  "boundary_table = \<lparr>index = [0, 1, 2, 3, 4, 5], data = [(''v'', boundary_series)]\<rparr>"

definition heavy_series :: series where
  "heavy_series = float_series [7, 7, 7, 7, 7, 100]"

definition heavy_table :: gdf where
  "heavy_table = \<lparr>index = [0, 1, 2, 3, 4, 5], data = [(''v'', heavy_series)]\<rparr>"

definition two_column_table :: gdf where
  "two_column_table =
     \<lparr>index = [0, 1, 2, 3, 4, 5],
      data = [(''a'', float_series [100, 1, 2, 3, 4, 5]),
              (''b'', float_series [10, 20, 30, 40, 50, 60])]\<rparr>"

definition obj_series :: "cell list \<Rightarrow> series" where
  "obj_series cs = \<lparr>kind = CHR ''O'', cells = cs\<rparr>"

text \<open>
  Five turbines. The second has the coordinates of the first, the fourth has no
  operation status and the fifth is of an old version.
\<close>

definition turbines :: gdf where
  "turbines =
     \<lparr>index = [0, 1, 2, 3, 4],
      data =
        [(''geometry'', obj_series (replicate 5 (Geo (Geometry True)))),
         (''versao'', obj_series (replicate 4 (Str versao_valida) @ [Str ''Antiga''])),
         (''operacao'', obj_series [Num 1, Str ''1'', Str ''Sim'', Null, Str ''Sim'']),
         (''pot_mw'', float_series [2, 2, 3, 2, 2]),
         (''alt_total'', float_series [120, 120, 150, 120, 120]),
         (''alt_torre'', float_series [80, 80, 100, 80, 80]),
         (''diam_rotor'', float_series [82, 82, 100, 82, 82]),
         (''eol_versao_id'', float_series [7, 7, 8, 7, 7]),
         (''nome_eol'', obj_series (replicate 5 (Str ''Parque''))),
         (''den_aeg'', obj_series [Str ''A1'', Str ''A2'', Str ''A3'', Str ''A4'', Str ''A5'']),
         (''latitude'', float_series [-5, -5, -6, -7, -8]),
         (''longitude'', float_series [-37, -37, -38, -39, -40]),
         (''origem'', obj_series (replicate 5 (Str ''SIGEL''))),
         (''x'', float_series [1, 1, 2, 3, 4]),
         (''y'', float_series [9, 9, 8, 7, 6]),
         (''datum_emp'', obj_series (replicate 5 (Str ''SIRGAS2000''))),
         (''fuso_ag'', obj_series (replicate 5 (Str ''24'')))]\<rparr>"

text \<open>What the cascade leaves of them: the first and the third.\<close>

definition turbines_clean :: gdf where
  "turbines_clean =
     \<lparr>index = [0, 1],
      data =
        [(''operacao'', obj_series [Str ''Sim'', Str ''Sim'']),
         (''pot_mw'', float_series [2, 3]),
         (''alt_total'', float_series [120, 150]),
         (''alt_torre'', float_series [80, 100]),
         (''diam_rotor'', float_series [82, 100]),
         (''eol_versao_id'', float_series [7, 8]),
         (''nome_eol'', obj_series [Str ''Parque'', Str ''Parque'']),
         (''den_aeg'', obj_series [Str ''A1'', Str ''A3'']),
         (''latitude'', float_series [-5, -6]),
         (''longitude'', float_series [-37, -38])]\<rparr>"

text \<open>The same turbines without the raw \<open>x\<close> column.\<close>

definition turbines_without_x :: gdf where
  "turbines_without_x = turbines\<lparr>data := filter (\<lambda>(c, s). c \<noteq> ''x'') (data turbines)\<rparr>"

text \<open>
  Three rows under a sparse index: the first two at the same coordinates, the third at
  the same latitude and another longitude.
\<close>

definition twin_rows :: gdf where
  "twin_rows =
     \<lparr>index = [4, 7, 9],
      data =
        [(''den_aeg'', obj_series [Str ''A1'', Str ''A2'', Str ''A3'']),
         (''latitude'', float_series [-5, -5, -5]),
         (''longitude'', float_series [-37, -37, -38])]\<rparr>"

definition twin_rows_clean :: gdf where
  "twin_rows_clean =
     \<lparr>index = [0, 1],
      data =
        [(''den_aeg'', obj_series [Str ''A1'', Str ''A3'']),
         (''latitude'', float_series [-5, -5]),
         (''longitude'', float_series [-37, -38])]\<rparr>"

text \<open>Two rows at the same longitude and different latitudes.\<close>

definition crossed_rows :: gdf where
  "crossed_rows =
     \<lparr>index = [0, 1],
      data =
        [(''latitude'', float_series [-5, -6]),
         (''longitude'', float_series [-37, -37])]\<rparr>"

text \<open>Scripted remote sides: the pages are served in order, whatever is asked.\<close>

definition page :: "'f list \<Rightarrow> bool \<Rightarrow> 'f payload" where
  "page fs flag = \<lparr>error_obj = None, features = Some fs, exceededTransferLimit = Some flag\<rparr>"

definition scripted :: "'f reply list \<Rightarrow> 'f session" where
  "scripted replies n ps = (if n < length replies then replies ! n else TransportFailure)"

text \<open>A full page with the flag, then a short page that still carries the flag.\<close>

definition flagged_short_session :: "nat session" where
  "flagged_short_session =
     scripted [Response 200 (Some (page (replicate 1000 0) True)),
               Response 200 (Some (page [1, 2, 3] True))]"

text \<open>A full page without the flag, then a short page.\<close>

definition unflagged_full_session :: "nat session" where
  "unflagged_full_session =
     scripted [Response 200 (Some (page (replicate 1000 0) False)),
               Response 200 (Some (page [1, 2, 3] False))]"

text \<open>A server error, and a success status over a payload that reports an error.\<close>

definition http_500_session :: "nat session" where
  "http_500_session = scripted [Response 500 None]"

definition embedded_error_session :: "nat session" where
  "embedded_error_session =
     scripted [Response 200
       (Some \<lparr>error_obj = Some ''Invalid query'', features = None,
              exceededTransferLimit = None\<rparr>)]"

text \<open>The row count before each step of a run and after its last step.\<close>

fun row_counts :: "(gdf \<Rightarrow> error + gdf) list \<Rightarrow> gdf \<Rightarrow> nat list" where
  "row_counts [] g = [len g]"
| "row_counts (f # fs) g =
     len g # (case f g of Inl e \<Rightarrow> [] | Inr g' \<Rightarrow> row_counts fs g')"

text \<open>The rows of a table: for each row, its cells in the order of the columns.\<close>

definition rows :: "gdf \<Rightarrow> cell list list" where
  "rows g = row_keys (map snd (data g)) (len g)"

section \<open>The IQR boundary example\<close>

text \<open>
  C4 (as the specification states it, refuted). For the column values
  \<open>[1, 2, 3, 4, 5, 100]\<close> and \<open>k = 1.5\<close> the upper limit \<open>Q3 + k * IQR\<close> that the filter
  computes is not \<open>6.5\<close>.
\<close>

theorem boundary_upper_limit_is_not_6_5:
  "upper_limit boundary_series (3 / 2) \<noteq> Some (13 / 2)"
  by code_simp

text \<open>
  C4 (amended). For the column values \<open>[1, 2, 3, 4, 5, 100]\<close> and \<open>k = 1.5\<close>:
  \<open>Q1 = 2.25\<close>, \<open>Q3 = 4.75\<close>, \<open>IQR = 2.5\<close>, the lower limit is \<open>-1.5\<close> and the upper limit
  is \<open>8.5\<close>; the value 100 is the only one outside the limits, and the filter returns
  the rows with the values 1 to 5, in their order, under a fresh index.
\<close>

theorem boundary_example:
  "quantile boundary_series (1 / 4) = Some (9 / 4) \<and>
   quantile boundary_series (3 / 4) = Some (19 / 4) \<and>
   iqr_of boundary_series = Some (5 / 2) \<and>
   lower_limit boundary_series (3 / 2) = Some (- (3 / 2)) \<and>
   upper_limit boundary_series (3 / 2) = Some (17 / 2) \<and>
   col_mask boundary_series (3 / 2) True = [True, True, True, True, True, False] \<and>
   remove_outliers_iqr boundary_table [''v''] (3 / 2) True =
     Inr \<lparr>index = [0, 1, 2, 3, 4], data = [(''v'', float_series [1, 2, 3, 4, 5])]\<rparr>"
  by code_simp

section \<open>The outlier filter: one column, several columns\<close>

lemma mask_and_all_True:
  "length cm = length ix \<Longrightarrow>
   mask_and (NdArray (map (\<lambda>_. True) ix)) (zip ix cm) = zip ix cm"
  by (induction ix cm rule: list_induct2') auto

lemma length_col_mask: "length (col_mask s k na) = length (cells s)"
  by (simp add: col_mask_def fillna_def col_inlier_def)

lemma col_mask_spec_keep:
  assumes "na \<or> Null \<notin> set (cells s)"
  shows "col_mask s k na = spec_keep s k na"
proof -
  have "\<And>c. c \<in> set (cells s) \<Longrightarrow>
          (ge_limit c (lower_limit s k) \<and> le_limit c (upper_limit s k)) =
          (case c of
             Null \<Rightarrow> \<not> na
           | _ \<Rightarrow> ge_limit c (lower_limit s k) \<and> le_limit c (upper_limit s k))"
    using assms by (auto simp: ge_limit_def split: cell.splits)
  then show ?thesis
    by (simp add: col_mask_def fillna_def col_inlier_def spec_keep_def)
qed

text \<open>
  With one column, and missing values counted as outliers or not present, the code does
  what the specification says: the rows that the column flags, and no other, are
  removed.
\<close>

lemma single_column_agrees:
  assumes "map_of (data g) col = Some s" "length (cells s) = length (index g)"
      and "na \<or> Null \<notin> set (cells s)"
  shows "remove_outliers_iqr g [col] k na = iqr_sequential k na g [col]"
proof -
  have len: "length (col_mask s k na) = length (index g)"
    using assms(2) by (simp add: length_col_mask)
  have "mask_and (NdArray (map (\<lambda>_. True) (index g))) (zip (index g) (col_mask s k na))
        = zip (index g) (col_mask s k na)"
    by (rule mask_and_all_True) (rule len)
  moreover have "getitem_bool g (zip (index g) (col_mask s k na)) =
                 Inr (take_rows g (col_mask s k na))"
    using len by (simp add: getitem_bool_def)
  ultimately show ?thesis
    using assms(1) col_mask_spec_keep [OF assms(3)]
    by (simp add: remove_outliers_iqr_def Let_def)
qed

text \<open>
  C1 (the code departs from the claim). With the columns \<open>a\<close> and \<open>b\<close>, column \<open>a\<close>
  flags the first row (value 100) and column \<open>b\<close>, computed on the five rows left,
  flags none. The claim keeps the five rows; the code returns four: the mask kept from
  column \<open>a\<close> still carries the labels of the table before its index was reset, so its
  \<open>False\<close> at label 0 now removes the row with \<open>a = 1\<close>, which no column flags.
\<close>

theorem two_columns_remove_an_unflagged_row:
  "remove_outliers_iqr two_column_table [''a'', ''b''] (3 / 2) True =
     Inr \<lparr>index = [0, 1, 2, 3],
          data = [(''a'', float_series [2, 3, 4, 5]), (''b'', float_series [30, 40, 50, 60])]\<rparr> \<and>
   iqr_sequential (3 / 2) True two_column_table [''a'', ''b''] =
     Inr \<lparr>index = [0, 1, 2, 3, 4],
          data = [(''a'', float_series [1, 2, 3, 4, 5]),
                  (''b'', float_series [20, 30, 40, 50, 60])]\<rparr> \<and>
   col_mask (float_series [100, 1, 2, 3, 4, 5]) (3 / 2) True =
     [False, True, True, True, True, True] \<and>
   col_mask (float_series [20, 30, 40, 50, 60]) (3 / 2) True =
     [True, True, True, True, True]"
  by code_simp

section \<open>Columns with a zero IQR\<close>

lemma nums_replicate: "nums (replicate n (Num c)) = replicate n c"
  by (induction n) auto

lemma sort_replicate: "sort (replicate n (c::rat)) = replicate n c"
  by (induction n) (auto simp: sorted_insort_is_snoc replicate_append_same)

lemma quantile_constant:
  assumes "cells s = replicate n (Num c)" "0 < n" "0 \<le> q" "q \<le> 1"
  shows "quantile s q = Some c"
proof -
  have "nat \<lfloor>q * of_nat (n - 1)\<rfloor> < n"
  proof -
    have "q * of_nat (n - 1) \<le> of_nat (n - 1)"
      using assms(3,4) by (intro mult_left_le_one_le) auto
    then have "\<lfloor>q * of_nat (n - 1)\<rfloor> \<le> int (n - 1)"
      by (metis floor_mono floor_of_nat)
    then show ?thesis using assms(2) by linarith
  qed
  then show ?thesis
    using assms(1,2) by (simp add: quantile_def nums_replicate sort_replicate Let_def)
qed

text \<open>A constant column without missing values flags no row, whatever the factor.\<close>

lemma constant_column_flags_nothing:
  assumes "cells s = replicate n (Num c)"
  shows "col_mask s k na = replicate n True"
proof (cases "n = 0")
  case True
  then show ?thesis using assms by (simp add: col_mask_def fillna_def col_inlier_def)
next
  case False
  then have q: "quantile s (1 / 4) = Some c" "quantile s (3 / 4) = Some c"
    using assms by (simp_all add: quantile_constant)
  then have "lower_limit s k = Some c" "upper_limit s k = Some c"
    by (simp_all add: lower_limit_def upper_limit_def iqr_of_def fsub_def fadd_def fmul_def)
  then show ?thesis
    using assms
    by (simp add: col_mask_def fillna_def col_inlier_def ge_limit_def le_limit_def
        map_replicate_const)
qed

text \<open>
  C5 (the code departs from the claim). The column \<open>[7, 7, 7, 7, 7, 100]\<close> has
  \<open>Q1 = Q3 = 7\<close>, so its IQR is zero, and it is not constant. Both limits are 7 and the
  filter removes the row with the value 100, where the claim (and the docstring of the
  function) says that a column with a zero IQR removes nothing.
\<close>

theorem zero_iqr_column_removes_a_row:
  "iqr_of heavy_series = Some 0 \<and>
   lower_limit heavy_series (3 / 2) = Some 7 \<and>
   upper_limit heavy_series (3 / 2) = Some 7 \<and>
   col_mask heavy_series (3 / 2) True = [True, True, True, True, True, False] \<and>
   remove_outliers_iqr heavy_table [''v''] (3 / 2) True =
     Inr \<lparr>index = [0, 1, 2, 3, 4], data = [(''v'', float_series [7, 7, 7, 7, 7])]\<rparr>"
  by code_simp

section \<open>Row counts across the cascade\<close>

lemma select_Nil [simp]: "select [] xs = []" "select m [] = []"
  by (simp_all add: select_def)

lemma select_Cons [simp]:
  "select (b # m) (x # xs) = (if b then x # select m xs else select m xs)"
  by (simp add: select_def)

lemma length_select_le: "length (select m xs) \<le> length xs"
proof -
  have "length (filter fst (zip m xs)) \<le> length (zip m xs)"
    by (rule length_filter_le)
  also have "\<dots> \<le> length xs"
    by simp
  finally show ?thesis
    by (simp add: select_def)
qed

lemma len_take_rows_le: "len (take_rows g m) \<le> len g"
  by (simp add: len_def take_rows_def length_select_le)

lemma len_reset_index [simp]: "len (reset_index g) = len g"
  by (simp add: len_def reset_index_def)

lemma len_setitem [simp]: "len (setitem g c s) = len g"
  by (simp add: len_def setitem_def)

lemma getitem_bool_len: "getitem_bool g km = Inr g' \<Longrightarrow> len g' \<le> len g"
  by (auto simp: getitem_bool_def len_take_rows_le split: if_splits)

lemma iqr_loop_len: "iqr_loop k na g km cols = Inr g' \<Longrightarrow> len g' \<le> len g"
proof (induction cols arbitrary: g km)
  case Nil
  then show ?case by simp
next
  case (Cons col cols)
  from Cons.prems obtain s g1 where
    g1: "getitem_bool g (mask_and km (zip (index g) (col_mask s k na))) = Inr g1" and
    rest: "iqr_loop k na (reset_index g1)
             (BoolSeries (mask_and km (zip (index g) (col_mask s k na)))) cols = Inr g'"
    by (auto simp: Let_def split: option.splits if_splits sum.splits)
  from Cons.IH [OF rest] have "len g' \<le> len g1" by simp
  with getitem_bool_len [OF g1] show ?case by simp
qed

lemma step_geometry_len: "step_geometry g = Inr g' \<Longrightarrow> len g' \<le> len g"
  by (auto simp: step_geometry_def Let_def split: sum.splits
           intro: order_trans [OF len_take_rows_le len_take_rows_le])

lemma step_version_len: "step_version g = Inr g' \<Longrightarrow> len g' \<le> len g"
  by (auto simp: step_version_def len_take_rows_le split: sum.splits)

lemma dropna_len: "dropna g cols = Inr g' \<Longrightarrow> len g' \<le> len g"
  by (auto simp: dropna_def len_take_rows_le split: if_splits)

lemma step_operation_len: "step_operation g = Inr g' \<Longrightarrow> len g' \<le> len g"
  by (auto simp: step_operation_def split: sum.splits dest: dropna_len)

lemma step_completeness_len: "step_completeness g = Inr g' \<Longrightarrow> len g' \<le> len g"
  by (auto simp: step_completeness_def dest: dropna_len)

lemma step_outliers_len: "step_outliers g = Inr g' \<Longrightarrow> len g' \<le> len g"
  by (auto simp: step_outliers_def remove_outliers_iqr_def dest: iqr_loop_len)

lemma step_duplicates_len: "step_duplicates g = Inr g' \<Longrightarrow> len g' \<le> len g"
  by (auto simp: step_duplicates_def drop_duplicates_def len_take_rows_le
           split: sum.splits if_splits)

lemma step_prune_len: "step_prune g = Inr g' \<Longrightarrow> len g' = len g"
  by (auto simp: step_prune_def drop_cols_def len_def split: if_splits)

lemma cascade_step_len:
  "f \<in> set cascade \<Longrightarrow> f g = Inr g' \<Longrightarrow> len g' \<le> len g"
  using step_geometry_len step_version_len step_operation_len step_completeness_len
    step_outliers_len step_duplicates_len step_prune_len
  by (auto simp: cascade_def)

lemma row_counts_nonempty: "row_counts fs g \<noteq> []"
  by (cases fs) simp_all

lemma row_counts_bounded:
  "\<forall>f \<in> set fs. \<forall>g g'. f g = Inr g' \<longrightarrow> len g' \<le> len g \<Longrightarrow>
   \<forall>n \<in> set (row_counts fs g). n \<le> len g"
proof (induction fs arbitrary: g)
  case Nil
  then show ?case by simp
next
  case (Cons f fs)
  show ?case
  proof (cases "f g")
    case (Inl e)
    then show ?thesis by simp
  next
    case (Inr g')
    have "len g' \<le> len g" using Cons.prems Inr by simp
    moreover have "\<forall>n \<in> set (row_counts fs g'). n \<le> len g'"
      using Cons.IH [of g'] Cons.prems by simp
    ultimately show ?thesis using Inr by auto
  qed
qed

lemma row_counts_sorted:
  "\<forall>f \<in> set fs. \<forall>g g'. f g = Inr g' \<longrightarrow> len g' \<le> len g \<Longrightarrow>
   sorted_wrt (\<ge>) (row_counts fs g)"
proof (induction fs arbitrary: g)
  case Nil
  then show ?case by simp
next
  case (Cons f fs)
  show ?case
  proof (cases "f g")
    case (Inl e)
    then show ?thesis by simp
  next
    case (Inr g')
    have le: "len g' \<le> len g" using Cons.prems Inr by simp
    have "\<forall>n \<in> set (row_counts fs g'). n \<le> len g'"
      using row_counts_bounded [of fs g'] Cons.prems by simp
    with le have "\<forall>n \<in> set (row_counts fs g'). n \<le> len g" by auto
    moreover have "sorted_wrt (\<ge>) (row_counts fs g')"
      using Cons.IH [of g'] Cons.prems by simp
    ultimately show ?thesis using Inr by simp
  qed
qed

lemma row_counts_run:
  "run_steps fs g = Inr g' \<Longrightarrow>
   length (row_counts fs g) = Suc (length fs) \<and> last (row_counts fs g) = len g'"
proof (induction fs arbitrary: g)
  case Nil
  then show ?case by simp
next
  case (Cons f fs)
  then show ?case
    by (cases "f g") (auto simp: row_counts_nonempty)
qed

text \<open>
  C8. For every input table the row counts taken before each step of the cascade and
  after its last step never increase, also on a run that an exception ends early; every
  single step returns at most as many rows as it was given; and a run that completes has
  passed all seven steps and ends with at most as many rows as it started with.
\<close>

theorem row_count_never_grows:
  "sorted_wrt (\<ge>) (row_counts cascade g) \<and>
   hd (row_counts cascade g) = len g \<and>
   (\<forall>f g1 g2. f \<in> set cascade \<longrightarrow> f g1 = Inr g2 \<longrightarrow> len g2 \<le> len g1) \<and>
   (validate_gdf g = Inr g' \<longrightarrow>
      length (row_counts cascade g) = 8 \<and> last (row_counts cascade g) = len g' \<and>
      len g' \<le> len g)"
proof -
  have steps: "\<forall>f \<in> set cascade. \<forall>g g'. f g = Inr g' \<longrightarrow> len g' \<le> len g"
    using cascade_step_len by blast
  have s: "sorted_wrt (\<ge>) (row_counts cascade g)"
    using steps by (rule row_counts_sorted)
  have h: "hd (row_counts cascade g) = len g"
    by (simp add: cascade_def)
  have b: "\<forall>n \<in> set (row_counts cascade g). n \<le> len g"
    using steps by (rule row_counts_bounded)
  have r: "validate_gdf g = Inr g' \<longrightarrow>
      length (row_counts cascade g) = 8 \<and> last (row_counts cascade g) = len g' \<and>
      len g' \<le> len g"
  proof
    assume v: "validate_gdf g = Inr g'"
    then have l: "length (row_counts cascade g) = Suc (length cascade) \<and>
               last (row_counts cascade g) = len g'"
      unfolding validate_gdf_def by (rule row_counts_run)
    then have "row_counts cascade g \<noteq> []" by auto
    then have "last (row_counts cascade g) \<in> set (row_counts cascade g)" by simp
    with b l have "len g' \<le> len g" by auto
    with l show "length (row_counts cascade g) = 8 \<and> last (row_counts cascade g) = len g' \<and>
      len g' \<le> len g" by (simp add: cascade_def)
  qed
  from s h r cascade_step_len show ?thesis by blast
qed

theorem row_count_never_grows_witness:
  "validate_gdf turbines = Inr turbines_clean \<and>
   row_counts cascade turbines = [5, 5, 4, 3, 3, 3, 2, 2] \<and>
   sorted_wrt (\<ge>) (row_counts cascade turbines) \<and>
   length (row_counts cascade turbines) = 8 \<and>
   last (row_counts cascade turbines) = len turbines_clean \<and>
   len turbines_clean \<le> len turbines"
proof -
  have v: "validate_gdf turbines = Inr turbines_clean"
    by code_simp
  have c: "row_counts cascade turbines = [5, 5, 4, 3, 3, 3, 2, 2]"
    by code_simp
  from v c row_count_never_grows [of turbines turbines_clean] show ?thesis
    by blast
qed

section \<open>Column pruning\<close>

lemma absent_nonempty_iff:
  "absent g cols \<noteq> [] \<longleftrightarrow> (\<exists>c \<in> set cols. c \<notin> set (columns g))"
  by (auto simp: absent_def columns_def filter_empty_conv map_of_eq_None_iff)

lemma set_absent: "set (absent g cols) = set cols - set (columns g)"
  by (auto simp: absent_def columns_def map_of_eq_None_iff)

lemma run_steps_last:
  "run_steps (fs @ [f]) g = Inr g' \<Longrightarrow> \<exists>g0. f g0 = Inr g'"
  by (induction fs arbitrary: g) (auto split: sum.splits)

lemma validate_ends_with_prune:
  assumes "validate_gdf g = Inr g'"
  shows "\<exists>g0. step_prune g0 = Inr g'"
proof -
  have "cascade = [step_geometry, step_version, step_operation, step_completeness,
                   step_outliers, step_duplicates] @ [step_prune]"
    by (simp add: cascade_def)
  with assms show ?thesis
    unfolding validate_gdf_def by (metis run_steps_last)
qed

lemma pruned_has_no_geometry:
  assumes "step_prune g0 = Inr g'"
  shows "map_of (data g') ''geometry'' = None"
proof -
  from assms have "data g' = filter (\<lambda>(c, s). c \<notin> set drop_columns) (data g0)"
    by (auto simp: step_prune_def drop_cols_def split: if_splits)
  moreover have "''geometry'' \<in> set drop_columns"
    by (simp add: drop_columns_def)
  ultimately show ?thesis
    by (auto simp: map_of_eq_None_iff)
qed

lemma validate_without_geometry:
  "map_of (data g) ''geometry'' = None \<Longrightarrow> validate_gdf g = Inl AttributeError"
  by (simp add: validate_gdf_def cascade_def step_geometry_def geometry_col_def)

text \<open>
  C10. Whenever a column of the fixed drop set (\<open>geometry\<close>, \<open>origem\<close>, \<open>x\<close>, \<open>y\<close>,
  \<open>datum_emp\<close>, \<open>fuso_ag\<close>, \<open>versao\<close>) is absent from the table, the pruning step raises
  \<open>KeyError\<close>, naming exactly the absent columns. Consequently the output of a completed
  \<open>validate_gdf\<close> cannot be validated again: the pruning step raises on it for all seven
  columns, and \<open>validate_gdf\<close> itself raises on it (already where it reads the geometry
  column, which is gone).
\<close>

theorem pruning_raises_on_absent_column:
  "((\<exists>c \<in> set drop_columns. c \<notin> set (columns g)) \<longrightarrow>
      step_prune g = Inl (KeyError (absent g drop_columns)) \<and>
      absent g drop_columns \<noteq> [] \<and>
      set (absent g drop_columns) = set drop_columns - set (columns g)) \<and>
   (validate_gdf g = Inr g' \<longrightarrow>
      (\<exists>e. validate_gdf g' = Inl e) \<and>
      step_prune g' = Inl (KeyError drop_columns))"
proof (intro conjI impI)
  assume a: "\<exists>c \<in> set drop_columns. c \<notin> set (columns g)"
  then show "absent g drop_columns \<noteq> []"
    by (simp add: absent_nonempty_iff)
  then show "step_prune g = Inl (KeyError (absent g drop_columns))"
    by (simp add: step_prune_def drop_cols_def)
  show "set (absent g drop_columns) = set drop_columns - set (columns g)"
    by (rule set_absent)
next
  assume v: "validate_gdf g = Inr g'"
  then obtain g0 where p: "step_prune g0 = Inr g'"
    using validate_ends_with_prune by blast
  then have "validate_gdf g' = Inl AttributeError"
    by (intro validate_without_geometry pruned_has_no_geometry)
  then show "\<exists>e. validate_gdf g' = Inl e" by blast
  from p have d: "data g' = filter (\<lambda>(c, s). c \<notin> set drop_columns) (data g0)"
    by (auto simp: step_prune_def drop_cols_def split: if_splits)
  have "absent g' drop_columns = drop_columns"
    unfolding absent_def d
    by (rule filter_True) (auto simp: map_of_eq_None_iff)
  then show "step_prune g' = Inl (KeyError drop_columns)"
    by (simp add: step_prune_def drop_cols_def drop_columns_def)
qed

theorem pruning_raises_on_absent_column_witness:
  "(\<exists>c \<in> set drop_columns. c \<notin> set (columns turbines_without_x)) \<and>
   step_prune turbines_without_x = Inl (KeyError [''x'']) \<and>
   validate_gdf turbines = Inr turbines_clean \<and>
   (\<exists>e. validate_gdf turbines_clean = Inl e) \<and>
   step_prune turbines_clean = Inl (KeyError drop_columns)"
proof -
  have a: "\<exists>c \<in> set drop_columns. c \<notin> set (columns turbines_without_x)"
    by code_simp
  have x: "absent turbines_without_x drop_columns = [''x'']"
    by code_simp
  have v: "validate_gdf turbines = Inr turbines_clean"
    by code_simp
  from a x pruning_raises_on_absent_column [of turbines_without_x]
  have "step_prune turbines_without_x = Inl (KeyError [''x''])"
    by simp
  with a v pruning_raises_on_absent_column [of turbines turbines_clean] show ?thesis
    by blast
qed


section \<open>The operation status step\<close>

lemma select_map: "select m (map f xs) = map f (select m xs)"
proof (induction m arbitrary: xs)
  case Nil
  then show ?case by simp
next
  case (Cons b m)
  then show ?case by (cases xs) simp_all
qed

lemma select_notna_filter: "select (map notna cs) cs = filter notna cs"
  by (induction cs) simp_all

lemma notna_replace_cell [simp]: "notna (replace_cell c) = notna c"
  by (simp add: notna_def replace_cell_def)

lemma zip_replicate_True:
  "length bs = n \<Longrightarrow> map (\<lambda>(a, b). a \<and> b) (zip bs (replicate n True)) = bs"
  by (induction bs arbitrary: n) auto

lemma map_of_take_rows:
  "map_of (data (take_rows g m)) c =
   map_option (\<lambda>s. s\<lparr>cells := select m (cells s)\<rparr>) (map_of (data g) c)"
  by (simp add: take_rows_def map_of_map)

lemma replace_cell_cases:
  "replace_cell (Num 1) = Str ''Sim''" "replace_cell (Str ''1'') = Str ''Sim''"
  "replace_cell Null = Null"
  by (simp_all add: replace_cell_def)

lemma replace_cell_range:
  "replace_cell c \<noteq> Num 1 \<and> replace_cell c \<noteq> Str ''1''"
  by (simp add: replace_cell_def)

lemma select_count:
  "length xs = length cs \<Longrightarrow>
   length (select (map P cs) xs) + length (filter (\<lambda>c. \<not> P c) cs) = length cs"
  by (induction xs cs rule: list_induct2) simp_all

lemma missing_after_replace:
  "missing_operation_info (replace_one s) = length (filter (\<lambda>c. \<not> notna c) (cells s))"
proof -
  have "(\<lambda>c. replace_cell c = Null) = (\<lambda>c. \<not> notna c)"
    by (auto simp: replace_cell_def notna_def)
  then show ?thesis
    by (simp add: missing_operation_info_def replace_one_def filter_map comp_def)
qed

text \<open>
  C6. On a table that has the status column (one cell per row), the step does not fail:
  it first replaces every status equal to the number one or to the text \<open>"1"\<close> by
  \<open>"Sim"\<close> and leaves every other status as it is, and then keeps exactly the rows whose
  status is not missing. Afterwards the column holds no missing value, no number one and
  no text \<open>"1"\<close>, and the number of rows dropped is the count that the step reports.
\<close>

theorem operation_status_step:
  assumes "getitem g ''operacao'' = Inr s" and "length (cells s) = len g"
  shows "\<exists>g' s'.
     step_operation g = Inr g' \<and>
     g' = take_rows (setitem g ''operacao'' (replace_one s)) (map notna (cells s)) \<and>
     getitem g' ''operacao'' = Inr s' \<and>
     cells s' = map replace_cell (filter notna (cells s)) \<and>
     Null \<notin> set (cells s') \<and> Num 1 \<notin> set (cells s') \<and> Str ''1'' \<notin> set (cells s') \<and>
     replace_cell (Num 1) = Str ''Sim'' \<and> replace_cell (Str ''1'') = Str ''Sim'' \<and>
     (\<forall>c. c \<noteq> Num 1 \<and> c \<noteq> Str ''1'' \<longrightarrow> replace_cell c = c) \<and>
     len g' + missing_operation_info (replace_one s) = len g"
proof -
  let ?g1 = "setitem g ''operacao'' (replace_one s)"
  let ?m = "map notna (cells s)"
  have look: "map_of (data ?g1) ''operacao'' = Some (replace_one s)"
    by (simp add: setitem_def update_conv')
  have ab: "absent ?g1 [''operacao''] = []"
    using look by (simp add: absent_def)
  have mf: "List.map_filter (map_of (data ?g1)) [''operacao''] = [replace_one s]"
    using look by (simp add: List.map_filter_def)
  have mask: "all_notna [replace_one s] (len ?g1) = ?m"
    using assms(2) by (simp add: replace_one_def zip_replicate_True comp_def)
  have step: "step_operation g = Inr (take_rows ?g1 ?m)"
    using assms(1) ab mf mask by (simp add: step_operation_def dropna_def)
  let ?s' = "(replace_one s)\<lparr>cells := select ?m (cells (replace_one s))\<rparr>"
  have get: "getitem (take_rows ?g1 ?m) ''operacao'' = Inr ?s'"
    using look by (simp add: getitem_def map_of_take_rows)
  have "select ?m (cells (replace_one s)) = map replace_cell (select ?m (cells s))"
    by (simp add: replace_one_def select_map)
  then have cs: "cells ?s' = map replace_cell (filter notna (cells s))"
    by (simp add: select_notna_filter)
  have n0: "Null \<notin> set (cells ?s')"
    unfolding cs by (auto simp: notna_def replace_cell_def)
  have n1: "Num 1 \<notin> set (cells ?s') \<and> Str ''1'' \<notin> set (cells ?s')"
    unfolding cs using replace_cell_range by (metis (no_types, lifting) imageE list.set_map)
  have r: "\<forall>c. c \<noteq> Num 1 \<and> c \<noteq> Str ''1'' \<longrightarrow> replace_cell c = c"
    by (simp add: replace_cell_def)
  have "len (take_rows ?g1 ?m) = length (select ?m (index g))"
    by (simp add: len_def take_rows_def setitem_def)
  moreover have "length (index g) = length (cells s)"
    using assms(2) by (simp add: len_def)
  ultimately have cnt: "len (take_rows ?g1 ?m) + missing_operation_info (replace_one s) = len g"
    using select_count [of "index g" "cells s" notna] assms(2)
    by (simp add: missing_after_replace)
  from step get cs n0 n1 r cnt replace_cell_cases(1,2) show ?thesis
    by blast
qed

theorem operation_status_step_witness:
  "getitem turbines ''operacao'' =
     Inr (obj_series [Num 1, Str ''1'', Str ''Sim'', Null, Str ''Sim'']) \<and>
   (\<exists>g' s'. step_operation turbines = Inr g' \<and>
      getitem g' ''operacao'' = Inr s' \<and>
      cells s' = [Str ''Sim'', Str ''Sim'', Str ''Sim'', Str ''Sim''] \<and>
      len g' = 4)"
proof -
  let ?s = "obj_series [Num 1, Str ''1'', Str ''Sim'', Null, Str ''Sim'']"
  have h1: "getitem turbines ''operacao'' = Inr ?s"
    by code_simp
  have h2: "length (cells ?s) = len turbines"
    by code_simp
  have m: "missing_operation_info (replace_one ?s) = 1"
    by code_simp
  have l: "len turbines = 5"
    by code_simp
  from operation_status_step [OF h1 h2] obtain g' s' where
    "step_operation turbines = Inr g'" "getitem g' ''operacao'' = Inr s'"
    "cells s' = map replace_cell (filter notna (cells ?s))"
    "len g' + missing_operation_info (replace_one ?s) = len turbines"
    by blast
  moreover have "map replace_cell (filter notna (cells ?s)) =
                 [Str ''Sim'', Str ''Sim'', Str ''Sim'', Str ''Sim'']"
    by code_simp
  ultimately show ?thesis
    using h1 m l by auto
qed


section \<open>The duplicate coordinates step\<close>

lemma select_zip: "select m (zip xs ys) = zip (select m xs) (select m ys)"
proof (induction m arbitrary: xs ys)
  case Nil
  then show ?case by simp
next
  case (Cons b m)
  show ?case
  proof (cases xs)
    case Nil
    then show ?thesis by simp
  next
    case xs: (Cons x xs')
    show ?thesis
    proof (cases ys)
      case Nil
      then show ?thesis by simp
    next
      case (Cons y ys')
      with xs Cons.IH show ?thesis by simp
    qed
  qed
qed

lemma select_replicate:
  "length xs = n \<Longrightarrow> select m (replicate n c) = replicate (length (select m xs)) c"
proof (induction m arbitrary: n xs)
  case Nil
  then show ?case by simp
next
  case (Cons b m)
  then show ?case by (cases xs) auto
qed

lemma subseq_select: "subseq (select m xs) xs"
proof (induction m arbitrary: xs)
  case Nil
  then show ?case by simp
next
  case (Cons b m)
  then show ?case by (cases xs) auto
qed

lemma length_select_same:
  "length xs = length ys \<Longrightarrow> length (select m xs) = length (select m ys)"
proof (induction m arbitrary: xs ys)
  case Nil
  then show ?case by simp
next
  case (Cons b m)
  then show ?case by (cases xs; cases ys) auto
qed

lemma row_keys_select:
  "length ix = n \<Longrightarrow>
   select m (row_keys ss n) =
   row_keys (map (\<lambda>s. s\<lparr>cells := select m (cells s)\<rparr>) ss) (length (select m ix))"
proof (induction ss)
  case Nil
  then show ?case by (simp add: select_replicate)
next
  case (Cons s ss)
  then show ?case by (simp add: select_map select_zip)
qed

lemma map_filter_take_rows:
  "List.map_filter (map_of (data (take_rows g m))) cols =
   map (\<lambda>s. s\<lparr>cells := select m (cells s)\<rparr>) (List.map_filter (map_of (data g)) cols)"
  by (induction cols) (auto simp: List.map_filter_def map_of_take_rows)

lemma index_take_rows [simp]: "index (take_rows g m) = select m (index g)"
  by (simp add: take_rows_def)

lemma len_take_rows: "len (take_rows g m) = length (select m (index g))"
  by (simp add: len_def)

lemma subset_keys_take_rows:
  "subset_keys (take_rows g m) cols = select m (subset_keys g cols)"
  by (simp add: subset_keys_def map_filter_take_rows len_take_rows
                row_keys_select [where ix = "index g"] len_def)

lemma rows_take_rows: "rows (take_rows g m) = select m (rows g)"
proof -
  have "map snd (data (take_rows g m)) =
        map (\<lambda>s. s\<lparr>cells := select m (cells s)\<rparr>) (map snd (data g))"
    by (simp add: take_rows_def comp_def case_prod_beta)
  then show ?thesis
    by (simp add: rows_def len_take_rows row_keys_select [where ix = "index g"] len_def)
qed

lemma rows_reset_index [simp]: "rows (reset_index g) = rows g"
  by (simp add: rows_def reset_index_def len_def)

lemma subset_keys_reset_index [simp]: "subset_keys (reset_index g) cols = subset_keys g cols"
  by (simp add: subset_keys_def reset_index_def len_def)

lemma length_first_seen [simp]: "length (first_seen seen ks) = length ks"
  by (induction ks arbitrary: seen) simp_all

lemma first_seen_nth:
  "i < length ks \<Longrightarrow>
   first_seen seen ks ! i \<longleftrightarrow> ks ! i \<notin> set seen \<and> ks ! i \<notin> set (take i ks)"
proof (induction ks arbitrary: seen i)
  case Nil
  then show ?case by simp
next
  case (Cons k ks)
  then show ?case by (cases i) auto
qed

lemma first_seen_select:
  "distinct (select (first_seen seen ks) ks) \<and>
   set (select (first_seen seen ks) ks) = set ks - set seen"
proof (induction ks arbitrary: seen)
  case Nil
  then show ?case by simp
next
  case (Cons k ks)
  from Cons.IH [of "k # seen"] show ?case by auto
qed

lemma zip_replicate_Nil:
  "length xs = n \<Longrightarrow> map (\<lambda>(c, r). c # r) (zip xs (replicate n [])) = map (\<lambda>c. [c]) xs"
  by (induction xs arbitrary: n) auto

lemma row_keys_pairs:
  assumes "length (cells la) = n" "length (cells lo) = n"
  shows "row_keys [la, lo] n = map (\<lambda>(a, b). [a, b]) (zip (cells la) (cells lo))"
proof -
  have "row_keys [la, lo] n =
        map (\<lambda>(c, r). c # r) (zip (cells la) (map (\<lambda>c. [c]) (cells lo)))"
    using assms(2) by (simp add: zip_replicate_Nil)
  also have "\<dots> = map (\<lambda>(a, b). [a, b]) (zip (cells la) (cells lo))"
    by (simp add: zip_map2 case_prod_beta)
  finally show ?thesis .
qed

lemma not_absent_pair:
  assumes "absent g [c1, c2] = []"
  shows "\<exists>s1 s2. map_of (data g) c1 = Some s1 \<and> map_of (data g) c2 = Some s2"
  using assms by (auto simp: absent_def split: if_splits)

lemma pair_keys_nth:
  assumes "i < length xs" "length ys = length xs"
  shows "map (\<lambda>(a, b). [a, b]) (zip xs ys) ! i \<notin> set (take i (map (\<lambda>(a, b). [a, b]) (zip xs ys)))
         \<longleftrightarrow> (\<forall>j < i. xs ! j \<noteq> xs ! i \<or> ys ! j \<noteq> ys ! i)"
proof -
  let ?ks = "map (\<lambda>(a, b). [a, b]) (zip xs ys)"
  have len: "length ?ks = length xs" using assms(2) by simp
  have at: "\<And>j. j < length xs \<Longrightarrow> ?ks ! j = [xs ! j, ys ! j]"
    using assms(2) by simp
  have "set (take i ?ks) = {?ks ! j | j. j < i}"
  proof -
    have "length (take i ?ks) = i"
      using assms(1) len by simp
    moreover have "\<And>j. j < i \<Longrightarrow> take i ?ks ! j = ?ks ! j"
      by simp
    ultimately show ?thesis
      unfolding set_conv_nth [of "take i ?ks"] by (metis (no_types, lifting))
  qed
  then have "?ks ! i \<notin> set (take i ?ks) \<longleftrightarrow> (\<forall>j < i. ?ks ! j \<noteq> ?ks ! i)"
    by auto
  also have "\<dots> \<longleftrightarrow> (\<forall>j < i. [xs ! j, ys ! j] \<noteq> [xs ! i, ys ! i])"
    using at assms(1) by auto
  finally show ?thesis by simp
qed

lemma card_pair_keys:
  "card (set (map (\<lambda>(a, b). [a, b]) ps)) = card (set ps)"
proof -
  have "inj_on (\<lambda>(a, b). [a, b]) (set ps)"
    by (auto simp: inj_on_def)
  then show ?thesis
    by (simp add: card_image)
qed

lemma duplicate_keys_are_coordinate_pairs:
  assumes "step_duplicates g = Inr g'"
  shows "\<exists>la lo la' lo'.
     getitem g ''latitude'' = Inr la \<and> getitem g ''longitude'' = Inr lo \<and>
     getitem g' ''latitude'' = Inr la' \<and> getitem g' ''longitude'' = Inr lo' \<and>
     cells la' =
       select (first_seen [] (subset_keys g [''latitude'', ''longitude''])) (cells la) \<and>
     cells lo' =
       select (first_seen [] (subset_keys g [''latitude'', ''longitude''])) (cells lo) \<and>
     (length (cells la) = len g \<and> length (cells lo) = len g \<longrightarrow>
        subset_keys g [''latitude'', ''longitude''] =
          map (\<lambda>(a, b). [a, b]) (zip (cells la) (cells lo)) \<and>
        (\<forall>i < len g.
           first_seen [] (subset_keys g [''latitude'', ''longitude'']) ! i \<longleftrightarrow>
           (\<forall>j < i. cells la ! j \<noteq> cells la ! i \<or> cells lo ! j \<noteq> cells lo ! i)) \<and>
        distinct (zip (cells la') (cells lo')) \<and>
        set (zip (cells la') (cells lo')) = set (zip (cells la) (cells lo)) \<and>
        len g' = card (set (zip (cells la) (cells lo))))"
proof -
  let ?ks = "subset_keys g [''latitude'', ''longitude'']"
  let ?m = "first_seen [] ?ks"
  from assms have ab: "absent g [''latitude'', ''longitude''] = []"
    by (auto simp: step_duplicates_def drop_duplicates_def split: sum.splits if_splits)
  from assms have g': "g' = reset_index (take_rows g ?m)"
    by (auto simp: step_duplicates_def drop_duplicates_def split: sum.splits if_splits)
  from not_absent_pair [OF ab] obtain la lo where
    la: "map_of (data g) ''latitude'' = Some la" and
    lo: "map_of (data g) ''longitude'' = Some lo"
    by blast
  let ?la' = "la\<lparr>cells := select ?m (cells la)\<rparr>"
  let ?lo' = "lo\<lparr>cells := select ?m (cells lo)\<rparr>"
  have d': "data g' = data (take_rows g ?m)"
    by (simp add: g' reset_index_def)
  have gla: "getitem g' ''latitude'' = Inr ?la'" and glo: "getitem g' ''longitude'' = Inr ?lo'"
    using la lo by (simp_all add: getitem_def d' map_of_take_rows)
  have ks: "?ks = row_keys [la, lo] (len g)"
    using la lo by (simp add: subset_keys_def List.map_filter_def)
  have wf: "length (cells la) = len g \<and> length (cells lo) = len g \<longrightarrow>
        ?ks = map (\<lambda>(a, b). [a, b]) (zip (cells la) (cells lo)) \<and>
        (\<forall>i < len g. ?m ! i \<longleftrightarrow>
           (\<forall>j < i. cells la ! j \<noteq> cells la ! i \<or> cells lo ! j \<noteq> cells lo ! i)) \<and>
        distinct (zip (cells ?la') (cells ?lo')) \<and>
        set (zip (cells ?la') (cells ?lo')) = set (zip (cells la) (cells lo)) \<and>
        len g' = card (set (zip (cells la) (cells lo)))"
  proof
    assume l: "length (cells la) = len g \<and> length (cells lo) = len g"
    let ?ps = "zip (cells la) (cells lo)"
    let ?f = "\<lambda>(a::cell, b::cell). [a, b]"
    have keq: "?ks = map ?f ?ps"
      unfolding ks using l by (intro row_keys_pairs) simp_all
    have lk: "length ?ks = len g"
      using l by (simp add: keq)
    have nth: "\<forall>i < len g. ?m ! i \<longleftrightarrow>
           (\<forall>j < i. cells la ! j \<noteq> cells la ! i \<or> cells lo ! j \<noteq> cells lo ! i)"
    proof (intro allI impI)
      fix i assume i: "i < len g"
      then have "?m ! i \<longleftrightarrow> ?ks ! i \<notin> set (take i ?ks)"
        using lk by (simp add: first_seen_nth)
      also have "\<dots> \<longleftrightarrow> map ?f ?ps ! i \<notin> set (take i (map ?f ?ps))"
        by (simp only: keq)
      also have "\<dots> \<longleftrightarrow>
           (\<forall>j < i. cells la ! j \<noteq> cells la ! i \<or> cells lo ! j \<noteq> cells lo ! i)"
        using i l by (intro pair_keys_nth) simp_all
      finally show "?m ! i \<longleftrightarrow>
           (\<forall>j < i. cells la ! j \<noteq> cells la ! i \<or> cells lo ! j \<noteq> cells lo ! i)" .
    qed
    have sel: "map ?f (zip (cells ?la') (cells ?lo')) = select ?m ?ks"
      by (simp add: keq select_map select_zip)
    have ds: "distinct (select ?m ?ks) \<and> set (select ?m ?ks) = set ?ks"
      using first_seen_select [of "[]" ?ks] by simp
    have inj: "inj ?f"
      by (auto simp: inj_on_def)
    have dz: "distinct (zip (cells ?la') (cells ?lo'))"
      using ds sel by (metis distinct_map)
    have "?f ` set (zip (cells ?la') (cells ?lo')) = ?f ` set ?ps"
      using ds sel keq by (metis set_map)
    then have sz: "set (zip (cells ?la') (cells ?lo')) = set ?ps"
      using inj by (simp add: inj_image_eq_iff)
    have "len g' = length (select ?m (index g))"
      by (simp add: g' len_take_rows)
    also have "\<dots> = length (select ?m ?ks)"
      using lk by (intro length_select_same) (simp add: len_def)
    also have "\<dots> = card (set ?ks)"
      using ds by (metis distinct_card)
    also have "\<dots> = card (set ?ps)"
      by (simp only: keq card_pair_keys)
    finally have cnt: "len g' = card (set ?ps)" .
    from keq nth dz sz cnt show
       "?ks = map ?f ?ps \<and>
        (\<forall>i < len g. ?m ! i \<longleftrightarrow>
           (\<forall>j < i. cells la ! j \<noteq> cells la ! i \<or> cells lo ! j \<noteq> cells lo ! i)) \<and>
        distinct (zip (cells ?la') (cells ?lo')) \<and>
        set (zip (cells ?la') (cells ?lo')) = set ?ps \<and>
        len g' = card (set ?ps)"
      by blast
  qed
  have c1: "cells ?la' = select ?m (cells la)" and c2: "cells ?lo' = select ?m (cells lo)"
    by simp_all
  have g1: "getitem g ''latitude'' = Inr la" and g2: "getitem g ''longitude'' = Inr lo"
    using la lo by (simp_all add: getitem_def)
  show ?thesis
    apply (rule exI [of _ la], rule exI [of _ lo], rule exI [of _ ?la'], rule exI [of _ ?lo'])
    using g1 g2 gla glo c1 c2 wf by blast
qed

text \<open>
  C7. When the step completes, the table has a latitude and a longitude column, and on
  a well-formed table the key of a row is the pair of its cells in these two columns: a
  row is kept exactly when no earlier row has both the same latitude and the same
  longitude, so of every (latitude, longitude) pair the first row, and only it,
  remains. The rows that remain are whole rows of the input in their original order;
  their pairs are pairwise distinct and every pair of the input is still there; the
  index of the result is \<open>0, 1, \<dots>\<close>; and the number of rows that remain is the number
  of distinct pairs (two rows out of three when two of them coincide).
\<close>

theorem duplicate_coordinates_step:
  assumes "step_duplicates g = Inr g'"
  shows "index g' = [0..<len g'] \<and>
     rows g' = select (first_seen [] (subset_keys g [''latitude'', ''longitude''])) (rows g) \<and>
     subseq (rows g') (rows g) \<and>
     (\<forall>i < length (subset_keys g [''latitude'', ''longitude'']).
        first_seen [] (subset_keys g [''latitude'', ''longitude'']) ! i \<longleftrightarrow>
        subset_keys g [''latitude'', ''longitude''] ! i \<notin>
          set (take i (subset_keys g [''latitude'', ''longitude'']))) \<and>
     subset_keys g' [''latitude'', ''longitude''] =
       select (first_seen [] (subset_keys g [''latitude'', ''longitude'']))
         (subset_keys g [''latitude'', ''longitude'']) \<and>
     distinct (subset_keys g' [''latitude'', ''longitude'']) \<and>
     set (subset_keys g' [''latitude'', ''longitude'']) =
       set (subset_keys g [''latitude'', ''longitude'']) \<and>
     (length (subset_keys g [''latitude'', ''longitude'']) = len g \<longrightarrow>
        len g' = card (set (subset_keys g [''latitude'', ''longitude'']))) \<and>
     (\<exists>la lo la' lo'.
        getitem g ''latitude'' = Inr la \<and> getitem g ''longitude'' = Inr lo \<and>
        getitem g' ''latitude'' = Inr la' \<and> getitem g' ''longitude'' = Inr lo' \<and>
        cells la' =
          select (first_seen [] (subset_keys g [''latitude'', ''longitude''])) (cells la) \<and>
        cells lo' =
          select (first_seen [] (subset_keys g [''latitude'', ''longitude''])) (cells lo) \<and>
        (length (cells la) = len g \<and> length (cells lo) = len g \<longrightarrow>
           subset_keys g [''latitude'', ''longitude''] =
             map (\<lambda>(a, b). [a, b]) (zip (cells la) (cells lo)) \<and>
           (\<forall>i < len g.
              first_seen [] (subset_keys g [''latitude'', ''longitude'']) ! i \<longleftrightarrow>
              (\<forall>j < i. cells la ! j \<noteq> cells la ! i \<or> cells lo ! j \<noteq> cells lo ! i)) \<and>
           distinct (zip (cells la') (cells lo')) \<and>
           set (zip (cells la') (cells lo')) = set (zip (cells la) (cells lo)) \<and>
           len g' = card (set (zip (cells la) (cells lo)))))"
proof -
  let ?ks = "subset_keys g [''latitude'', ''longitude'']"
  let ?m = "first_seen [] ?ks"
  from assms have g': "g' = reset_index (take_rows g ?m)"
    by (auto simp: step_duplicates_def drop_duplicates_def split: sum.splits if_splits)
  have ix: "index g' = [0..<len g']"
    by (simp add: g' reset_index_def len_def)
  have rw: "rows g' = select ?m (rows g)"
    by (simp add: g' rows_take_rows)
  then have sq: "subseq (rows g') (rows g)"
    by (simp add: subseq_select)
  have nth: "\<forall>i < length ?ks. ?m ! i \<longleftrightarrow> ?ks ! i \<notin> set (take i ?ks)"
    by (simp add: first_seen_nth)
  have ks': "subset_keys g' [''latitude'', ''longitude''] = select ?m ?ks"
    by (simp add: g' subset_keys_take_rows)
  have ds: "distinct (select ?m ?ks) \<and> set (select ?m ?ks) = set ?ks"
    using first_seen_select [of "[]" ?ks] by simp
  have cnt: "length ?ks = len g \<longrightarrow> len g' = card (set ?ks)"
  proof
    assume l: "length ?ks = len g"
    have "len g' = length (select ?m (index g))"
      by (simp add: g' len_take_rows)
    also have "\<dots> = length (select ?m ?ks)"
      using l by (intro length_select_same) (simp add: len_def)
    also have "\<dots> = card (set ?ks)"
      using ds by (metis distinct_card)
    finally show "len g' = card (set ?ks)" .
  qed
  note pairs = duplicate_keys_are_coordinate_pairs [OF assms]
  from ix rw sq nth ks' ds cnt pairs show ?thesis
    by simp
qed

theorem duplicate_coordinates_step_witness:
  "step_duplicates twin_rows = Inr twin_rows_clean \<and>
   index twin_rows_clean = [0..<len twin_rows_clean] \<and>
   rows twin_rows =
     [[Str ''A1'', Num (- 5), Num (- 37)], [Str ''A2'', Num (- 5), Num (- 37)],
      [Str ''A3'', Num (- 5), Num (- 38)]] \<and>
   rows twin_rows_clean =
     [[Str ''A1'', Num (- 5), Num (- 37)], [Str ''A3'', Num (- 5), Num (- 38)]] \<and>
   subset_keys twin_rows [''latitude'', ''longitude''] =
     [[Num (- 5), Num (- 37)], [Num (- 5), Num (- 37)], [Num (- 5), Num (- 38)]] \<and>
   first_seen [] (subset_keys twin_rows [''latitude'', ''longitude'']) = [True, False, True] \<and>
   len twin_rows = 3 \<and>
   len twin_rows_clean = 2 \<and>
   step_duplicates crossed_rows = Inr crossed_rows"
proof -
  have s: "step_duplicates twin_rows = Inr twin_rows_clean"
    by code_simp
  have k: "subset_keys twin_rows [''latitude'', ''longitude''] =
           [[Num (- 5), Num (- 37)], [Num (- 5), Num (- 37)], [Num (- 5), Num (- 38)]]"
    by code_simp
  have m: "first_seen [] (subset_keys twin_rows [''latitude'', ''longitude'']) =
           [True, False, True]"
    unfolding k by simp
  have l: "len twin_rows = 3"
    by code_simp
  have c: "card (set (subset_keys twin_rows [''latitude'', ''longitude''])) = 2"
    unfolding k by simp
  have r: "rows twin_rows =
           [[Str ''A1'', Num (- 5), Num (- 37)], [Str ''A2'', Num (- 5), Num (- 37)],
            [Str ''A3'', Num (- 5), Num (- 38)]]"
    by code_simp
  have x: "step_duplicates crossed_rows = Inr crossed_rows"
    by code_simp
  note t = duplicate_coordinates_step [OF s]
  from t have i: "index twin_rows_clean = [0..<len twin_rows_clean]"
    by blast
  from t have "rows twin_rows_clean =
      select (first_seen [] (subset_keys twin_rows [''latitude'', ''longitude'']))
        (rows twin_rows)"
    by blast
  then have r': "rows twin_rows_clean =
      [[Str ''A1'', Num (- 5), Num (- 37)], [Str ''A3'', Num (- 5), Num (- 38)]]"
    unfolding m r by simp
  from t have "length (subset_keys twin_rows [''latitude'', ''longitude'']) = len twin_rows
      \<longrightarrow> len twin_rows_clean = card (set (subset_keys twin_rows [''latitude'', ''longitude'']))"
    by blast
  with k l c have n: "len twin_rows_clean = 2"
    by simp
  from s i r r' k m l n x show ?thesis
    by blast
qed

section \<open>Failures of one page request\<close>

text \<open>
  C3 (as the specification states it, refuted). A response with status 500 and a
  response with status 200 whose payload carries an \<open>error\<close> object both make
  \<open>fetch_page\<close> raise, but not as the same kind of error: the first raises the HTTP
  client's \<open>HTTPError\<close>, the second a \<open>RuntimeError\<close>.
\<close>

theorem failures_raise_different_exceptions:
  "fetch_page http_500_session 0 0 [] limit = Inl (HTTPError 500) \<and>
   fetch_page embedded_error_session 0 0 [] limit = Inl (RuntimeError ''Invalid query'') \<and>
   exception_class (HTTPError 500) \<noteq> exception_class (RuntimeError ''Invalid query'')"
  by (simp add: fetch_page_def http_500_session_def embedded_error_session_def scripted_def
      raises_for_status_def)

text \<open>
  C3 (amended). \<open>fetch_page\<close> raises \<open>HTTPError\<close> when the response has a 4xx or 5xx
  status, and raises \<open>RuntimeError\<close> when the status does not raise and the decoded
  payload contains an \<open>error\<close> object; a payload is returned only from a response
  whose status does not raise and which contains no \<open>error\<close> object, so neither
  failure is ever returned as data.
\<close>

theorem fetch_page_raises:
  "(session n (request_params offset extra limit) = Response status body \<and>
      raises_for_status status \<longrightarrow>
        fetch_page session n offset extra limit = Inl (HTTPError status)) \<and>
   (session n (request_params offset extra limit) = Response status (Some d) \<and>
      \<not> raises_for_status status \<and> error_obj d = Some e \<longrightarrow>
        fetch_page session n offset extra limit = Inl (RuntimeError e)) \<and>
   (fetch_page session n offset extra limit = Inr d \<longrightarrow>
      error_obj d = None \<and>
      (\<exists>status. session n (request_params offset extra limit) = Response status (Some d) \<and>
         \<not> raises_for_status status))"
  by (auto simp: fetch_page_def split: reply.splits option.splits if_splits)

theorem fetch_page_raises_witness:
  "http_500_session 0 (request_params 0 [] limit) = Response 500 None \<and>
   raises_for_status 500 \<and>
   fetch_page http_500_session 0 0 [] limit = Inl (HTTPError 500) \<and>
   embedded_error_session 0 (request_params 0 [] limit) =
     Response 200 (Some \<lparr>error_obj = Some ''Invalid query'', features = None,
                         exceededTransferLimit = None\<rparr>) \<and>
   \<not> raises_for_status 200 \<and>
   fetch_page embedded_error_session 0 0 [] limit = Inl (RuntimeError ''Invalid query'') \<and>
   fetch_page flagged_short_session 1 limit [] limit = Inr (page [1, 2, 3] True) \<and>
   error_obj (page [1, 2, 3 :: nat] True) = None"
proof -
  have a: "http_500_session 0 (request_params 0 [] limit) = Response 500 None"
    by (simp add: http_500_session_def scripted_def)
  have b: "raises_for_status 500" "\<not> raises_for_status 200"
    by (simp_all add: raises_for_status_def)
  have c: "embedded_error_session 0 (request_params 0 [] limit) =
     Response 200 (Some \<lparr>error_obj = Some ''Invalid query'', features = None,
                         exceededTransferLimit = None\<rparr>)"
    by (simp add: embedded_error_session_def scripted_def)
  have d: "fetch_page flagged_short_session 1 limit [] limit = Inr (page [1, 2, 3] True)"
    by (simp add: fetch_page_def flagged_short_session_def scripted_def raises_for_status_def
        page_def)
  from a b(1)
    fetch_page_raises [where session = http_500_session and n = 0 and offset = 0
      and extra = "[]" and status = 500 and body = None]
  have e: "fetch_page http_500_session 0 0 [] limit = Inl (HTTPError 500)"
    by blast
  from c b(2)
    fetch_page_raises [where session = embedded_error_session and n = 0 and offset = 0
      and extra = "[]" and status = 200 and e = "''Invalid query''"
      and d = "\<lparr>error_obj = Some ''Invalid query'', features = None,
                exceededTransferLimit = None\<rparr>"]
  have f: "fetch_page embedded_error_session 0 0 [] limit = Inl (RuntimeError ''Invalid query'')"
    by simp
  from d
    fetch_page_raises [where session = flagged_short_session and n = 1 and offset = limit
      and extra = "[]" and d = "page [1, 2, 3] True"]
  have g: "error_obj (page [1, 2, 3 :: nat] True) = None"
    by blast
  from a b c d e f g show ?thesis by blast
qed

section \<open>The pagination loop\<close>

lemma fetch_loop_step:
  assumes "fetch_page session n offset extra limit = Inr d"
  shows "fetch_loop session extra n offset acc =
     (if exceeded d \<and> limit \<le> length (page_features d)
      then fetch_loop session extra (Suc n) (offset + limit) (acc @ page_features d)
      else Some (Inr (acc @ page_features d), Suc n))"
  using assms by (subst fetch_loop.simps) (auto simp: not_less)

lemma fetch_loop_error:
  assumes "fetch_page session n offset extra limit = Inl e"
  shows "fetch_loop session extra n offset acc = Some (Inl e, Suc n)"
  using assms by (subst fetch_loop.simps) simp

lemma fetch_loop_run:
  assumes pages: "\<forall>i \<le> N. fetch_page session i (i * limit) extra limit = Inr (pg i)"
      and more: "\<forall>i < N. exceeded (pg i) \<and> limit \<le> length (page_features (pg i))"
      and stop: "\<not> exceeded (pg N) \<or> length (page_features (pg N)) < limit"
      and n: "n \<le> N"
  shows "fetch_loop session extra n (n * limit) acc =
         Some (Inr (acc @ concat (map (\<lambda>i. page_features (pg i)) [n..<Suc N])), Suc N)"
  using n
proof (induction "N - n" arbitrary: n acc)
  case 0
  then have "n = N" by simp
  moreover have "fetch_page session N (N * limit) extra limit = Inr (pg N)"
    using pages by simp
  ultimately show ?case
    using stop by (auto simp: fetch_loop_step)
next
  case (Suc m)
  then have lt: "n < N" by simp
  have p: "fetch_page session n (n * limit) extra limit = Inr (pg n)"
    using pages lt by simp
  have c: "exceeded (pg n) \<and> limit \<le> length (page_features (pg n))"
    using more lt by simp
  have "fetch_loop session extra n (n * limit) acc =
        fetch_loop session extra (Suc n) (Suc n * limit) (acc @ page_features (pg n))"
    using c by (simp add: fetch_loop_step [OF p] add.commute)
  also have "\<dots> = Some (Inr ((acc @ page_features (pg n)) @
                 concat (map (\<lambda>i. page_features (pg i)) [Suc n..<Suc N])), Suc N)"
    using Suc.hyps(1) [of "Suc n"] Suc.hyps(2) lt by simp
  finally show ?case
    using lt by (simp add: upt_conv_Cons)
qed

text \<open>
  C2 (as the specification states it, refuted). The second page of this run returns
  fewer than \<open>limit\<close> records, but it is never requested: the first page is full and
  does not carry the flag, so one request is issued, not two.
\<close>

theorem unflagged_full_page_ends_pagination:
  "fetch_page unflagged_full_session 1 limit [] limit = Inr (page [1, 2, 3] False) \<and>
   length (page_features (page [1, 2, 3 :: nat] False)) < limit \<and>
   fetch_all_features unflagged_full_session [] = Some (Inr (replicate 1000 0), 1)"
  by (simp add: fetch_all_features_def fetch_loop.simps fetch_page_def
      unflagged_full_session_def scripted_def raises_for_status_def page_def
      page_features_def exceeded_def limit_def)

text \<open>
  C2 (amended). After a page that was fetched without error the loop requests the next
  page if and only if the page carries the flag and holds at least \<open>limit\<close> records.
  Hence, when every page before page \<open>N\<close> (counted from 0) carries the flag and holds at
  least \<open>limit\<close> records, and page \<open>N\<close> holds fewer than \<open>limit\<close> records or does not
  carry the flag, the run ends, exactly \<open>N + 1\<close> requests are issued and the features
  of these pages are returned in order; a page with the flag but fewer than \<open>limit\<close>
  records ends the pagination.
\<close>

theorem pagination_requests:
  assumes "\<forall>i \<le> N. fetch_page session i (i * limit) extra limit = Inr (pg i)"
      and "\<forall>i < N. exceeded (pg i) \<and> limit \<le> length (page_features (pg i))"
      and "\<not> exceeded (pg N) \<or> length (page_features (pg N)) < limit"
  shows "fetch_all_features session extra =
           Some (Inr (concat (map (\<lambda>i. page_features (pg i)) [0..<Suc N])), Suc N) \<and>
         (\<forall>n offset acc d.
            fetch_page session n offset extra limit = Inr d \<longrightarrow>
            fetch_loop session extra n offset acc =
              (if exceeded d \<and> limit \<le> length (page_features d)
               then fetch_loop session extra (Suc n) (offset + limit) (acc @ page_features d)
               else Some (Inr (acc @ page_features d), Suc n)))"
proof -
  have "fetch_loop session extra 0 (0 * limit) [] =
        Some (Inr ([] @ concat (map (\<lambda>i. page_features (pg i)) [0..<Suc N])), Suc N)"
    using assms by (intro fetch_loop_run) simp_all
  then have "fetch_all_features session extra =
           Some (Inr (concat (map (\<lambda>i. page_features (pg i)) [0..<Suc N])), Suc N)"
    by (simp add: fetch_all_features_def)
  then show ?thesis
    using fetch_loop_step by blast
qed

theorem pagination_requests_witness:
  "fetch_page flagged_short_session 0 (0 * limit) [] limit =
     Inr (page (replicate 1000 0) True) \<and>
   fetch_page flagged_short_session 1 (1 * limit) [] limit = Inr (page [1, 2, 3] True) \<and>
   exceeded (page (replicate 1000 (0::nat)) True) \<and>
   limit \<le> length (page_features (page (replicate 1000 (0::nat)) True)) \<and>
   exceeded (page [1, 2, 3 :: nat] True) \<and>
   length (page_features (page [1, 2, 3 :: nat] True)) < limit \<and>
   fetch_all_features flagged_short_session [] = Some (Inr (replicate 1000 0 @ [1, 2, 3]), 2)"
proof -
  let ?pg = "\<lambda>i::nat. if i = 0 then page (replicate 1000 (0::nat)) True else page [1, 2, 3] True"
  have e: "exceeded (page (replicate 1000 (0::nat)) True)"
          "limit \<le> length (page_features (page (replicate 1000 (0::nat)) True))"
          "exceeded (page [1, 2, 3 :: nat] True)"
          "length (page_features (page [1, 2, 3 :: nat] True)) < limit"
    by (simp_all add: exceeded_def page_def page_features_def limit_def)
  have p: "\<forall>i \<le> 1. fetch_page flagged_short_session i (i * limit) [] limit = Inr (?pg i)"
  proof (intro allI impI)
    fix i :: nat
    assume "i \<le> 1"
    then have "i = 0 \<or> i = 1" by auto
    then show "fetch_page flagged_short_session i (i * limit) [] limit = Inr (?pg i)"
      by (auto simp: fetch_page_def flagged_short_session_def scripted_def
          raises_for_status_def page_def)
  qed
  have m: "\<forall>i < 1. exceeded (?pg i) \<and> limit \<le> length (page_features (?pg i))"
    using e by simp
  have s: "\<not> exceeded (?pg 1) \<or> length (page_features (?pg 1)) < limit"
    using e by simp
  have c: "concat (map (\<lambda>i. page_features (?pg i)) [0..<Suc 1]) = replicate 1000 0 @ [1, 2, 3]"
    by (simp add: page_features_def page_def)
  from pagination_requests [OF p m s] c
  have "fetch_all_features flagged_short_session [] =
        Some (Inr (replicate 1000 0 @ [1, 2, 3]), 2)"
    by simp
  moreover from p have
    "fetch_page flagged_short_session 0 (0 * limit) [] limit =
       Inr (page (replicate 1000 0) True)"
    "fetch_page flagged_short_session 1 (1 * limit) [] limit = Inr (page [1, 2, 3] True)"
    by (auto simp del: mult_zero_left mult_1 nat_mult_1)
  ultimately show ?thesis using e by blast
qed

section \<open>The outlier filter leaves its input alone\<close>

lemma alloc_simps [simp]: "alloc h g = (h @ [g], length h)"
  by (simp add: alloc_def)

lemma iqr_loop_store_frame:
  assumes "iqr_loop_store k na h a km cols = (h', r)" and "a < length h"
  shows "(\<exists>ext. h' = h @ ext) \<and>
         (case r of
            Inr a' \<Rightarrow> a \<le> a' \<and> a' < length h' \<and> iqr_loop k na (h ! a) km cols = Inr (h' ! a')
          | Inl e \<Rightarrow> iqr_loop k na (h ! a) km cols = Inl e)"
  using assms
proof (induction cols arbitrary: h a km)
  case Nil
  then show ?case by auto
next
  case (Cons col cols)
  show ?case
  proof (cases "map_of (data (h ! a)) col")
    case None
    with Cons.prems show ?thesis by auto
  next
    case (Some s)
    show ?thesis
    proof (cases "numeric_kind (kind s)")
      case False
      with Some Cons.prems show ?thesis by auto
    next
      case True
      let ?km = "mask_and km (zip (index (h ! a)) (col_mask s k na))"
      show ?thesis
      proof (cases "getitem_bool (h ! a) ?km")
        case (Inl e)
        with Some True Cons.prems show ?thesis by (auto simp: Let_def)
      next
        case (Inr g')
        let ?h2 = "h @ [g', reset_index g']"
        let ?a2 = "Suc (length h)"
        have run: "iqr_loop_store k na ?h2 ?a2 (BoolSeries ?km) cols = (h', r)"
          using Some True Inr Cons.prems(1) by (simp add: Let_def nth_append)
        have a2: "?a2 < length ?h2" by simp
        have at: "?h2 ! ?a2 = reset_index g'"
          by (simp add: nth_append)
        from Cons.IH [OF run a2] at
        have ih: "(\<exists>ext. h' = ?h2 @ ext) \<and>
           (case r of
              Inr a' \<Rightarrow> ?a2 \<le> a' \<and> a' < length h' \<and>
                iqr_loop k na (reset_index g') (BoolSeries ?km) cols = Inr (h' ! a')
            | Inl e \<Rightarrow> iqr_loop k na (reset_index g') (BoolSeries ?km) cols = Inl e)"
          by (simp cong: sum.case_cong)
        have step: "iqr_loop k na (h ! a) km (col # cols) =
                    iqr_loop k na (reset_index g') (BoolSeries ?km) cols"
          using Some True Inr by (simp add: Let_def)
        from ih have "\<exists>ext. h' = h @ ext" by auto
        moreover from ih step Cons.prems(2) have
          "case r of
            Inr a' \<Rightarrow> a \<le> a' \<and> a' < length h' \<and>
              iqr_loop k na (h ! a) km (col # cols) = Inr (h' ! a')
          | Inl e \<Rightarrow> iqr_loop k na (h ! a) km (col # cols) = Inl e"
          by (auto split: sum.splits)
        ultimately show ?thesis by blast
      qed
    qed
  qed
qed

text \<open>
  C9. For every store, every table in it, every list of columns, factor and treatment
  of missing values: after \<open>remove_outliers_iqr\<close> the store holds, at every address it
  had before, the table it held before (in particular the input table is unchanged: its
  index, its columns and its cells), also when the call raises; a table that is
  returned lives at a new address, and it is the table that the filter computes from
  the input.
\<close>

theorem remove_outliers_keeps_input:
  assumes "gdf < length h"
      and "remove_outliers_iqr_store h gdf cols k na = (h', r)"
  shows "take (length h) h' = h \<and>
         h' ! gdf = h ! gdf \<and>
         (\<forall>a < length h. h' ! a = h ! a) \<and>
         (\<forall>a. r = Inr a \<longrightarrow>
            length h \<le> a \<and> a < length h' \<and>
            remove_outliers_iqr (h ! gdf) cols k na = Inr (h' ! a)) \<and>
         (\<forall>e. r = Inl e \<longrightarrow> remove_outliers_iqr (h ! gdf) cols k na = Inl e)"
proof -
  let ?h1 = "h @ [h ! gdf]"
  have run: "iqr_loop_store k na ?h1 (length h) (NdArray (map (\<lambda>_. True) (index (h ! gdf)))) cols
             = (h', r)"
    using assms(2) by (simp add: remove_outliers_iqr_store_def)
  have "length h < length ?h1" by simp
  from iqr_loop_store_frame [OF run this]
  have "(\<exists>ext. h' = ?h1 @ ext) \<and>
        (case r of
            Inr a' \<Rightarrow> length h \<le> a' \<and> a' < length h' \<and>
              iqr_loop k na (h ! gdf) (NdArray (map (\<lambda>_. True) (index (h ! gdf)))) cols
                = Inr (h' ! a')
          | Inl e \<Rightarrow> iqr_loop k na (h ! gdf) (NdArray (map (\<lambda>_. True) (index (h ! gdf)))) cols
                = Inl e)"
    by (simp cong: sum.case_cong)
  then obtain ext where ext: "h' = ?h1 @ ext" and
    res: "case r of
            Inr a' \<Rightarrow> length h \<le> a' \<and> a' < length h' \<and>
              iqr_loop k na (h ! gdf) (NdArray (map (\<lambda>_. True) (index (h ! gdf)))) cols
                = Inr (h' ! a')
          | Inl e \<Rightarrow> iqr_loop k na (h ! gdf) (NdArray (map (\<lambda>_. True) (index (h ! gdf)))) cols
                = Inl e"
    by blast
  from ext have t: "take (length h) h' = h" by simp
  from ext have n: "\<forall>a < length h. h' ! a = h ! a" by (simp add: nth_append)
  with assms(1) have g: "h' ! gdf = h ! gdf" by simp
  from res have
    "(\<forall>a. r = Inr a \<longrightarrow>
        length h \<le> a \<and> a < length h' \<and>
        remove_outliers_iqr (h ! gdf) cols k na = Inr (h' ! a)) \<and>
     (\<forall>e. r = Inl e \<longrightarrow> remove_outliers_iqr (h ! gdf) cols k na = Inl e)"
    by (auto simp: remove_outliers_iqr_def split: sum.splits)
  with t n g show ?thesis by blast
qed

theorem remove_outliers_keeps_input_witness:
  "(0::nat) < length [boundary_table] \<and>
   remove_outliers_iqr_store [boundary_table] 0 [''v''] (3 / 2) True =
     ([boundary_table, boundary_table,
       \<lparr>index = [0, 1, 2, 3, 4], data = [(''v'', float_series [1, 2, 3, 4, 5])]\<rparr>,
       \<lparr>index = [0, 1, 2, 3, 4], data = [(''v'', float_series [1, 2, 3, 4, 5])]\<rparr>], Inr 3) \<and>
   [boundary_table, boundary_table,
       \<lparr>index = [0, 1, 2, 3, 4], data = [(''v'', float_series [1, 2, 3, 4, 5])]\<rparr>,
       \<lparr>index = [0, 1, 2, 3, 4], data = [(''v'', float_series [1, 2, 3, 4, 5])]\<rparr>] ! 0
     = boundary_table"
proof -
  have l: "(0::nat) < length [boundary_table]" by simp
  have r: "remove_outliers_iqr_store [boundary_table] 0 [''v''] (3 / 2) True =
     ([boundary_table, boundary_table,
       \<lparr>index = [0, 1, 2, 3, 4], data = [(''v'', float_series [1, 2, 3, 4, 5])]\<rparr>,
       \<lparr>index = [0, 1, 2, 3, 4], data = [(''v'', float_series [1, 2, 3, 4, 5])]\<rparr>], Inr 3)"
    by code_simp
  from remove_outliers_keeps_input [OF l r] l r show ?thesis
    by simp
qed

end
